theory Spec2Isabelle
  imports Complex_Main "HOL-Library.Char_ord" "HOL-Library.List_Lexorder" "HOL-Library.AList"
begin

section \<open>Values, errors and slices\<close>

text \<open>
  A \<^verbatim>\<open>float64\<close> as Go's comparison operators see it: a finite number (the two zeros
  are one value under \<^verbatim>\<open>==\<close> and \<^verbatim>\<open><\<close>), an infinity, or NaN.
\<close>

datatype float64 = FNum real | FPosInf | FNegInf | FNaN

fun float_eq :: "float64 \<Rightarrow> float64 \<Rightarrow> bool" where
  "float_eq (FNum a) (FNum b) = (a = b)"
| "float_eq FPosInf FPosInf = True"
| "float_eq FNegInf FNegInf = True"
| "float_eq _ _ = False"

fun float_lt :: "float64 \<Rightarrow> float64 \<Rightarrow> bool" where
  "float_lt (FNum a) (FNum b) = (a < b)"
| "float_lt FNegInf (FNum b) = True"
| "float_lt FNegInf FPosInf = True"
| "float_lt (FNum a) FPosInf = True"
| "float_lt _ _ = False"

text \<open>
  A cell of a row, a key of an index, a literal: Go's \<^verbatim>\<open>interface{}\<close> holding an
  \<^verbatim>\<open>int\<close>, a \<^verbatim>\<open>string\<close>, a \<^verbatim>\<open>bool\<close>, a \<^verbatim>\<open>float64\<close>, or nothing
  (\<^verbatim>\<open>nil\<close>). Integers are only stored and compared, never computed with, so they are
  modelled by \<^typ>\<open>int\<close>; strings are byte strings ordered lexicographically. The parser
  produces no other kind of value (a \<^verbatim>\<open>float32\<close>, which \<^verbatim>\<open>ValidateValue\<close> would also
  accept in a float column, is left out).
\<close>

datatype gvalue = VNil | VInt int | VText string | VBool bool | VFloat float64

datatype dyntype = DInt | DText | DBool | DFloat

fun dyn_type :: "gvalue \<Rightarrow> dyntype option" where
  "dyn_type VNil = None"
| "dyn_type (VInt _) = Some DInt"
| "dyn_type (VText _) = Some DText"
| "dyn_type (VBool _) = Some DBool"
| "dyn_type (VFloat _) = Some DFloat"

text \<open>Go's \<^verbatim>\<open>==\<close> on two interface values: same dynamic type and equal contents.\<close>

fun go_eq :: "gvalue \<Rightarrow> gvalue \<Rightarrow> bool" where
  "go_eq VNil VNil = True"
| "go_eq (VInt a) (VInt b) = (a = b)"
| "go_eq (VText a) (VText b) = (a = b)"
| "go_eq (VBool a) (VBool b) = (a = b)"
| "go_eq (VFloat a) (VFloat b) = float_eq a b"
| "go_eq _ _ = False"

text \<open>
  The errors of the engine, one constructor for each kind of \<^verbatim>\<open>fmt.Errorf\<close> message
  in the source. \<open>IndexOutOfRange\<close> stands for the run-time panic of a slice access.
\<close>

datatype error =
    NotFound | AlreadyExists | ArityMismatch | TypeMismatch | NullNotAllowed
  | DuplicateKey | IncomparableTypes | UnsupportedExpression | UnsupportedOperator
  | MultipleJoins | IOError | IndexOutOfRange

text \<open>Reading and writing a slice at an \<^verbatim>\<open>int\<close> index; \<open>None\<close> is the panic.\<close>

definition slice_get :: "'a list \<Rightarrow> int \<Rightarrow> 'a option" where
  "slice_get xs i = (if 0 \<le> i \<and> i < int (length xs) then Some (xs ! nat i) else None)"

definition slice_set :: "'a list \<Rightarrow> int \<Rightarrow> 'a \<Rightarrow> 'a list option" where
  "slice_set xs i v = (if 0 \<le> i \<and> i < int (length xs) then Some (xs[nat i := v]) else None)"

section \<open>Schema and rows\<close>

datatype DataType = TypeInteger | TypeVarchar | TypeBoolean | TypeFloat

record Column =
  Name :: string
  DataType :: DataType
  Size :: int
  PrimaryKey :: bool
  Unique :: bool
  NotNull :: bool

record Schema =
  TableName :: string
  Columns :: "Column list"
  PrimaryKeys :: "string list"
  UniqueKeys :: "string list"

definition NewSchema :: "string \<Rightarrow> Schema" where
  "NewSchema tableName =
     \<lparr>TableName = tableName, Columns = [], PrimaryKeys = [], UniqueKeys = []\<rparr>"

definition AddColumn :: "Schema \<Rightarrow> Column \<Rightarrow> Schema" where
  "AddColumn s col =
     s\<lparr>Columns := Columns s @ [col],
       PrimaryKeys := (if PrimaryKey col then PrimaryKeys s @ [Name col] else PrimaryKeys s),
       UniqueKeys := (if Unique col then UniqueKeys s @ [Name col] else UniqueKeys s)\<rparr>"

text \<open>\<^verbatim>\<open>GetColumnIndex\<close>: the first column of that name, or \<open>-1\<close>.\<close>

fun column_index_from :: "Column list \<Rightarrow> string \<Rightarrow> int \<Rightarrow> int" where
  "column_index_from [] name i = -1"
| "column_index_from (col # cols) name i =
     (if Name col = name then i else column_index_from cols name (i + 1))"

definition GetColumnIndex :: "Schema \<Rightarrow> string \<Rightarrow> int" where
  "GetColumnIndex s name = column_index_from (Columns s) name 0"

record Row =
  Values :: "gvalue list"

definition NewRow :: "gvalue list \<Rightarrow> Row" where
  "NewRow vs = \<lparr>Values = vs\<rparr>"

definition Get :: "Row \<Rightarrow> int \<Rightarrow> gvalue option" where
  "Get r index =
     (if index < 0 \<or> index \<ge> int (length (Values r)) then Some VNil
      else slice_get (Values r) index)"

definition Set :: "Row \<Rightarrow> int \<Rightarrow> gvalue \<Rightarrow> Row option" where
  "Set r index v =
     (if index \<ge> 0 \<and> index < int (length (Values r))
      then map_option (\<lambda>vs. r\<lparr>Values := vs\<rparr>) (slice_set (Values r) index v)
      else Some r)"

fun ValidateValue :: "gvalue \<Rightarrow> Column \<Rightarrow> error option" where
  "ValidateValue VNil col = (if NotNull col then Some NullNotAllowed else None)"
| "ValidateValue v col =
     (case DataType col of
        TypeInteger \<Rightarrow> (case v of VInt _ \<Rightarrow> None | _ \<Rightarrow> Some TypeMismatch)
      | TypeVarchar \<Rightarrow>
          (case v of
             VText str \<Rightarrow>
               (if Size col > 0 \<and> int (length str) > Size col then Some TypeMismatch else None)
           | _ \<Rightarrow> Some TypeMismatch)
      | TypeBoolean \<Rightarrow> (case v of VBool _ \<Rightarrow> None | _ \<Rightarrow> Some TypeMismatch)
      | TypeFloat \<Rightarrow> (case v of VFloat _ \<Rightarrow> None | _ \<Rightarrow> Some TypeMismatch))"

section \<open>Comparing values in predicates\<close>

fun lessThan :: "gvalue \<Rightarrow> gvalue \<Rightarrow> error + bool" where
  "lessThan (VInt l) (VInt r) = Inr (l < r)"
| "lessThan (VFloat l) (VFloat r) = Inr (float_lt l r)"
| "lessThan (VText l) (VText r) = Inr (l < r)"
| "lessThan _ _ = Inl IncomparableTypes"

fun greaterThan :: "gvalue \<Rightarrow> gvalue \<Rightarrow> error + bool" where
  "greaterThan (VInt l) (VInt r) = Inr (l > r)"
| "greaterThan (VFloat l) (VFloat r) = Inr (float_lt r l)"
| "greaterThan (VText l) (VText r) = Inr (l > r)"
| "greaterThan _ _ = Inl IncomparableTypes"

definition lessThanOrEqual :: "gvalue \<Rightarrow> gvalue \<Rightarrow> error + bool" where
  "lessThanOrEqual left right =
     (case lessThan left right of
        Inr True \<Rightarrow> Inr True
      | _ \<Rightarrow> Inr (go_eq left right))"

definition greaterThanOrEqual :: "gvalue \<Rightarrow> gvalue \<Rightarrow> error + bool" where
  "greaterThanOrEqual left right =
     (case greaterThan left right of
        Inr True \<Rightarrow> Inr True
      | _ \<Rightarrow> Inr (go_eq left right))"

definition compareValues :: "gvalue \<Rightarrow> gvalue \<Rightarrow> string \<Rightarrow> error + bool" where
  "compareValues left right operator =
     (if left = VNil \<or> right = VNil then
        (if operator = ''='' then Inr (go_eq left right) else Inr False)
      else if operator = ''='' then Inr (go_eq left right)
      else if operator = ''!='' then Inr (\<not> go_eq left right)
      else if operator = ''<'' then lessThan left right
      else if operator = ''>'' then greaterThan left right
      else if operator = ''<='' then lessThanOrEqual left right
      else if operator = ''>='' then greaterThanOrEqual left right
      else Inl UnsupportedOperator)"

section \<open>Ordering the keys of an index\<close>

text \<open>\<^verbatim>\<open>compare\<close> of the B-tree: \<open>-1\<close>, \<open>0\<close> or \<open>1\<close>; it has no error result.\<close>

definition three_way :: "bool \<Rightarrow> bool \<Rightarrow> int" where
  "three_way lt gt = (if lt then -1 else if gt then 1 else 0)"

fun compare :: "gvalue \<Rightarrow> gvalue \<Rightarrow> int" where
  "compare (VInt av) (VInt bv) = three_way (av < bv) (av > bv)"
| "compare (VText av) (VText bv) = three_way (av < bv) (av > bv)"
| "compare (VFloat av) (VFloat bv) = three_way (float_lt av bv) (float_lt bv av)"
| "compare _ _ = 0"

section \<open>The B-tree index\<close>

text \<open>
  A node holds parallel slices of keys and row positions, and its children. The Go code
  updates nodes in place through pointers; the tree has no sharing, so an operation is
  modelled as a function to the node it leaves behind. \<open>None\<close> is a run-time panic
  (a slice read, write or cut out of range); it also covers a node whose slices are not
  parallel (as many row positions as keys, for an inner node one child more), a shape on
  which the shifting loops of the source would scramble or panic and which no operation
  produces.
\<close>

datatype BTreeNode =
  BTreeNode (keys: "gvalue list") (vals: "int list") (children: "BTreeNode list") (isLeaf: bool)

record BTree =
  root :: BTreeNode

record IndexEntry =
  Key :: gvalue
  RowIndex :: int

definition btreeOrder :: nat where
  "btreeOrder = 4"

definition NewBTree :: BTree where
  "NewBTree = \<lparr>root = BTreeNode [] [] [] True\<rparr>"

text \<open>
  The two scanning loops: \<^verbatim>\<open>i := 0; for i < len(keys) && compare(key, keys[i]) > 0 { i++ }\<close>
  gives \<open>scan_up\<close>; \<^verbatim>\<open>i := len(keys) - 1; for i >= 0 && compare(key, keys[i]) < 0 { i-- }\<close>
  gives \<open>i + 1 = scan_down\<close>.
\<close>

definition scan_up :: "gvalue \<Rightarrow> gvalue list \<Rightarrow> nat" where
  "scan_up key ks = length (takeWhile (\<lambda>k. compare key k > 0) ks)"

definition scan_down :: "gvalue \<Rightarrow> gvalue list \<Rightarrow> nat" where
  "scan_down key ks = length (dropWhile (\<lambda>k. compare key k < 0) (rev ks))"

lemma size_child: "i < length cs \<Longrightarrow> size (cs ! i) < Suc (size_list size cs)"
  by (metis less_Suc_eq_le nth_mem size_list_estimation' order_refl)

function searchNode :: "BTreeNode \<Rightarrow> gvalue \<Rightarrow> (int \<times> bool) option" where
  "searchNode (BTreeNode ks vs cs leaf) key =
     (let i = scan_up key ks in
      if i < length ks \<and> compare key (ks ! i) = 0 then
        (if i < length vs then Some (vs ! i, True) else None)
      else if leaf then Some (-1, False)
      else if i < length cs then searchNode (cs ! i) key
      else None)"
  by pat_completeness auto
termination
  by (relation "measure (\<lambda>(node, key). size node)") (auto simp add: size_child)

text \<open>
  \<^verbatim>\<open>splitChild\<close>: the child keeps its first \<open>mid\<close> keys (and \<open>mid + 1\<close> children), the
  new node gets those after position \<open>mid\<close>, and key \<open>mid\<close> moves up into the parent at
  \<open>index\<close>, the new node becoming child \<open>index + 1\<close>.
\<close>

definition splitChild :: "BTreeNode \<Rightarrow> nat \<Rightarrow> BTreeNode option" where
  "splitChild parent index =
     (if index < length (children parent)
         \<and> length (children parent) = Suc (length (keys parent))
         \<and> length (vals parent) = length (keys parent) then
        (let fullChild = children parent ! index; mid = btreeOrder - 1 in
         if mid < length (keys fullChild) \<and> mid < length (vals fullChild)
            \<and> (isLeaf fullChild \<or> mid < length (children fullChild)) then
           (let newChild =
                  BTreeNode (drop (mid + 1) (keys fullChild)) (drop (mid + 1) (vals fullChild))
                    (if isLeaf fullChild then [] else drop (mid + 1) (children fullChild))
                    (isLeaf fullChild);
                fullChild' =
                  BTreeNode (take mid (keys fullChild)) (take mid (vals fullChild))
                    (if isLeaf fullChild then children fullChild
                     else take (mid + 1) (children fullChild))
                    (isLeaf fullChild)
            in Some (BTreeNode
                 (take index (keys parent) @ keys fullChild ! mid # drop index (keys parent))
                 (take index (vals parent) @ vals fullChild ! mid # drop index (vals parent))
                 (take index (children parent) @ fullChild' # newChild
                    # drop (index + 1) (children parent))
                 (isLeaf parent)))
         else None)
      else None)"

lemma size_list_take: "size_list f (take n xs) \<le> size_list f xs"
  by (induction xs arbitrary: n) (auto simp add: take_Cons split: nat.splits intro: le_SucI trans_le_add2)

lemma size_list_drop: "size_list f (drop n xs) \<le> size_list f xs"
  by (induction xs arbitrary: n) (auto simp add: drop_Cons split: nat.splits intro: le_SucI trans_le_add2)

lemma size_member: "c \<in> set cs \<Longrightarrow> size c < Suc (size_list size cs)"
  by (metis in_set_conv_nth size_child)

lemma size_splitChild:
  assumes "splitChild parent index = Some node'" and "j < length (children node')"
  shows "size (children node' ! j) < size parent"
proof -
  obtain ks vs cs leaf where p: "parent = BTreeNode ks vs cs leaf" by (cases parent)
  let ?fc = "cs ! index"
  let ?l = "BTreeNode (take 3 (keys ?fc)) (take 3 (vals ?fc))
              (if isLeaf ?fc then children ?fc else take 4 (children ?fc)) (isLeaf ?fc)"
  let ?r = "BTreeNode (drop 4 (keys ?fc)) (drop 4 (vals ?fc))
              (if isLeaf ?fc then [] else drop 4 (children ?fc)) (isLeaf ?fc)"
  from assms(1) p have idx: "index < length cs"
    and ch: "children node' = take index cs @ ?l # ?r # drop (Suc index) cs"
    by (auto simp add: splitChild_def btreeOrder_def Let_def split: if_splits)
  have fc: "size ?fc < Suc (size_list size cs)" using idx by (rule size_child)
  have l: "size ?l \<le> size ?fc"
    using size_list_take [of size 4 "children ?fc"] by (cases ?fc) auto
  have r: "size ?r \<le> size ?fc"
    using size_list_drop [of size 4 "children ?fc"] by (cases ?fc) auto
  from assms(2) have "children node' ! j \<in> set (children node')" by simp
  then have "children node' ! j \<in> set cs \<or> children node' ! j = ?l \<or> children node' ! j = ?r"
    unfolding ch by (auto dest: in_set_takeD in_set_dropD)
  with fc l r size_member [of "children node' ! j" cs] show ?thesis
    by (auto simp add: p)
qed

function insertNonFull :: "BTreeNode \<Rightarrow> gvalue \<Rightarrow> int \<Rightarrow> BTreeNode option" where
  "insertNonFull (BTreeNode ks vs cs leaf) key rowIndex =
     (if leaf then
        (if length vs = length ks then
           (let j = scan_down key ks in
            Some (BTreeNode (take j ks @ key # drop j ks) (take j vs @ rowIndex # drop j vs) cs leaf))
         else None)
      else
        (let i = scan_down key ks in
         if i < length cs then
           (if length (keys (cs ! i)) \<ge> 2 * btreeOrder - 1 then
              (case splitChild (BTreeNode ks vs cs leaf) i of
                 None \<Rightarrow> None
               | Some node' \<Rightarrow>
                   (let i' = (if compare key (keys node' ! i) > 0 then i + 1 else i) in
                    if i' < length (children node') then
                      (case insertNonFull (children node' ! i') key rowIndex of
                         None \<Rightarrow> None
                       | Some c \<Rightarrow>
                           Some (BTreeNode (keys node') (vals node')
                                   ((children node')[i' := c]) (isLeaf node')))
                    else None))
            else
              (case insertNonFull (cs ! i) key rowIndex of
                 None \<Rightarrow> None
               | Some c \<Rightarrow> Some (BTreeNode ks vs (cs[i := c]) leaf)))
         else None))"
  by pat_completeness auto
termination
  apply (relation "measure (\<lambda>(node, key, rowIndex). size node)")
     apply (auto simp add: size_child dest: size_splitChild)
  done

definition Insert :: "BTree \<Rightarrow> gvalue \<Rightarrow> int \<Rightarrow> (BTree \<times> error option) option" where
  "Insert bt key rowIndex =
     (case searchNode (root bt) key of
        None \<Rightarrow> None
      | Some (_, True) \<Rightarrow> Some (bt, Some DuplicateKey)
      | Some (_, False) \<Rightarrow>
          (case (if length (keys (root bt)) \<ge> 2 * btreeOrder - 1
                 then splitChild (BTreeNode [] [] [root bt] False) 0
                 else Some (root bt)) of
             None \<Rightarrow> None
           | Some r \<Rightarrow>
               (case insertNonFull r key rowIndex of
                  None \<Rightarrow> None
                | Some r' \<Rightarrow> Some (bt\<lparr>root := r'\<rparr>, None))))"

definition Search :: "BTree \<Rightarrow> gvalue \<Rightarrow> (int \<times> bool) option" where
  "Search bt key = searchNode (root bt) key"

function deleteNode :: "BTreeNode \<Rightarrow> gvalue \<Rightarrow> (BTreeNode \<times> bool) option" where
  "deleteNode (BTreeNode ks vs cs leaf) key =
     (let i = scan_up key ks in
      if i < length ks \<and> compare key (ks ! i) = 0 then
        (if leaf then
           (if i < length vs then
              Some (BTreeNode (take i ks @ drop (i + 1) ks) (take i vs @ drop (i + 1) vs) cs leaf,
                    True)
            else None)
         else Some (BTreeNode ks vs cs leaf, True))
      else if leaf then Some (BTreeNode ks vs cs leaf, False)
      else if i < length cs then
        (case deleteNode (cs ! i) key of
           None \<Rightarrow> None
         | Some (c, found) \<Rightarrow> Some (BTreeNode ks vs (cs[i := c]) leaf, found))
      else None)"
  by pat_completeness auto
termination
  by (relation "measure (\<lambda>(node, key). size node)") (auto simp add: size_child)

definition Delete :: "BTree \<Rightarrow> gvalue \<Rightarrow> (BTree \<times> bool) option" where
  "Delete bt key =
     (case deleteNode (root bt) key of
        None \<Rightarrow> None
      | Some (r, found) \<Rightarrow> Some (bt\<lparr>root := r\<rparr>, found))"

text \<open>
  \<^verbatim>\<open>traverse\<close> appends to \<open>entries\<close>; \<open>traverse_loop\<close> is its \<^verbatim>\<open>for\<close> loop from index
  \<open>i\<close> on.
\<close>

function traverse :: "BTreeNode \<Rightarrow> IndexEntry list \<Rightarrow> IndexEntry list option"
  and traverse_loop :: "BTreeNode \<Rightarrow> nat \<Rightarrow> IndexEntry list \<Rightarrow> IndexEntry list option" where
  "traverse node entries =
     (case traverse_loop node 0 entries of
        None \<Rightarrow> None
      | Some entries' \<Rightarrow>
          (if \<not> isLeaf node then
             (if length (keys node) < length (children node)
              then traverse (children node ! length (keys node)) entries'
              else None)
           else Some entries'))"
| "traverse_loop node i entries =
     (if i < length (keys node) then
        (case (if \<not> isLeaf node then
                 (if i < length (children node) then traverse (children node ! i) entries
                  else None)
               else Some entries) of
           None \<Rightarrow> None
         | Some entries' \<Rightarrow>
             (if i < length (vals node) then
                traverse_loop node (Suc i)
                  (entries' @ [\<lparr>Key = keys node ! i, RowIndex = vals node ! i\<rparr>])
              else None))
      else Some entries)"
  by pat_completeness auto
termination
  apply (relation "(\<lambda>x. case x of Inl (node, entries) \<Rightarrow> size node
                       | Inr (node, i, entries) \<Rightarrow> size node)
          <*mlex*> (\<lambda>x. case x of Inl (node, entries) \<Rightarrow> Suc (length (keys node))
                       | Inr (node, i, entries) \<Rightarrow> length (keys node) - i)
          <*mlex*> {}")
      apply (auto simp add: wf_mlex mlex_prod_def)
   apply (case_tac node; simp add: size_child)+
  done

declare traverse.simps [simp del] traverse_loop.simps [simp del]

definition GetAll :: "BTree \<Rightarrow> IndexEntry list option" where
  "GetAll bt = traverse (root bt) []"

text \<open>
  The structural properties of a tree: every leaf below a node is at depth \<open>h\<close>; every
  node of a subtree holds between \<open>lo\<close> and \<open>hi\<close> keys. \<open>well_shaped lo h\<close> is the
  invariant that the operations maintain: parallel slices, at most \<open>2 * btreeOrder - 1\<close>
  keys, leaves at depth \<open>h\<close>, one child more than keys, and at least \<open>lo\<close> keys in
  every node other than the one at the top.
\<close>
fun leaves_at_depth :: "nat \<Rightarrow> BTreeNode \<Rightarrow> bool" where
  "leaves_at_depth h (BTreeNode ks vs cs leaf) =
     (if leaf then h = 0
      else (case h of 0 \<Rightarrow> False | Suc h' \<Rightarrow> \<forall>c \<in> set cs. leaves_at_depth h' c))"

fun keys_between :: "nat \<Rightarrow> nat \<Rightarrow> BTreeNode \<Rightarrow> bool" where
  "keys_between lo hi (BTreeNode ks vs cs leaf) =
     (lo \<le> length ks \<and> length ks \<le> hi \<and> (\<forall>c \<in> set cs. keys_between lo hi c))"

fun well_shaped :: "nat \<Rightarrow> nat \<Rightarrow> BTreeNode \<Rightarrow> bool" where
  "well_shaped lo h (BTreeNode ks vs cs leaf) =
     (length vs = length ks \<and> length ks \<le> 2 * btreeOrder - 1
      \<and> (if leaf then h = 0 \<and> cs = []
         else (case h of
                 0 \<Rightarrow> False
               | Suc h' \<Rightarrow>
                   length cs = Suc (length ks)
                   \<and> (\<forall>c \<in> set cs. lo \<le> length (keys c) \<and> well_shaped lo h' c))))"

text \<open>
  Every node of the subtree that is not a leaf holds at least \<open>lo\<close> keys.
\<close>

fun inner_keys_at_least :: "nat \<Rightarrow> BTreeNode \<Rightarrow> bool" where
  "inner_keys_at_least lo (BTreeNode ks vs cs leaf) =
     ((leaf \<or> lo \<le> length ks) \<and> (\<forall>c \<in> set cs. inner_keys_at_least lo c))"

text \<open>A sequence of calls of \<^verbatim>\<open>Insert\<close> and \<^verbatim>\<open>Delete\<close>, whatever they return.\<close>

datatype operation = OpInsert gvalue int | OpDelete gvalue

fun is_insert :: "operation \<Rightarrow> bool" where
  "is_insert (OpInsert _ _) = True"
| "is_insert (OpDelete _) = False"

definition apply_operation :: "BTree \<Rightarrow> operation \<Rightarrow> BTree option" where
  "apply_operation bt op =
     (case op of
        OpInsert key rowIndex \<Rightarrow> map_option fst (Insert bt key rowIndex)
      | OpDelete key \<Rightarrow> map_option fst (Delete bt key))"

fun run_operations :: "BTree \<Rightarrow> operation list \<Rightarrow> BTree option" where
  "run_operations bt [] = Some bt"
| "run_operations bt (op # ops) =
     (case apply_operation bt op of
        None \<Rightarrow> None
      | Some bt' \<Rightarrow> run_operations bt' ops)"

text \<open>
  The entries of a subtree in order: children and entries of a node interleaved. This is
  what \<open>traverse\<close> is shown to compute. \<open>ordered\<close> says that the keys are integers in
  strictly ascending order.
\<close>

fun weave :: "'a list list \<Rightarrow> 'a list \<Rightarrow> 'a list" where
  "weave [] es = []"
| "weave (c # cs) [] = c"
| "weave (c # cs) (e # es) = c @ e # weave cs es"

fun inorder :: "BTreeNode \<Rightarrow> (gvalue \<times> int) list" where
  "inorder (BTreeNode ks vs cs leaf) =
     (if leaf then zip ks vs else weave (map inorder cs) (zip ks vs))"

fun the_int :: "gvalue \<Rightarrow> int" where
  "the_int (VInt n) = n"
| "the_int _ = 0"

fun int_key :: "gvalue \<Rightarrow> bool" where
  "int_key (VInt n) = True"
| "int_key _ = False"

definition ordered :: "(gvalue \<times> int) list \<Rightarrow> bool" where
  "ordered es = ((\<forall>e \<in> set es. int_key (fst e)) \<and> sorted_wrt (<) (map (the_int \<circ> fst) es))"

text \<open>
  Inserting integer keys with their row positions one after the other; \<open>None\<close> when an
  \<open>Insert\<close> panics or returns an error.
\<close>

fun insert_all :: "BTree \<Rightarrow> (int \<times> int) list \<Rightarrow> BTree option" where
  "insert_all bt [] = Some bt"
| "insert_all bt ((k, pos) # kvs) =
     (case Insert bt (VInt k) pos of
        Some (bt', None) \<Rightarrow> insert_all bt' kvs
      | _ \<Rightarrow> None)"

definition entry :: "gvalue \<times> int \<Rightarrow> IndexEntry" where
  "entry e = \<lparr>Key = fst e, RowIndex = snd e\<rparr>"

text \<open>
  Notions used in the proofs about the order of the entries: the two ways of pairing
  children with entries that make up \<open>weave\<close>; keys that are integers in ascending
  order; the entries of a node to the left and to the right of child \<open>i\<close>; what the
  loop of \<open>traverse\<close> still has to append from index \<open>i\<close> on; and "\<open>new\<close> is \<open>old\<close>
  with the entry for key \<open>a\<close> put in its place".
\<close>

fun wl :: "'a list list \<Rightarrow> 'a list \<Rightarrow> 'a list" where
  "wl (c # cs) (e # es) = c @ e # wl cs es"
| "wl _ _ = []"

fun wr :: "'a list \<Rightarrow> 'a list list \<Rightarrow> 'a list" where
  "wr (e # es) (c # cs) = e # c @ wr es cs"
| "wr _ _ = []"

definition int_keys :: "gvalue list \<Rightarrow> bool" where
  "int_keys ks = ((\<forall>k \<in> set ks. int_key k) \<and> sorted_wrt (<) (map the_int ks))"

definition left_part :: "gvalue list \<Rightarrow> int list \<Rightarrow> BTreeNode list \<Rightarrow> nat \<Rightarrow> (gvalue \<times> int) list" where
  "left_part ks vs cs i = wl (map inorder (take i cs)) (zip (take i ks) (take i vs))"

definition right_part :: "gvalue list \<Rightarrow> int list \<Rightarrow> BTreeNode list \<Rightarrow> nat \<Rightarrow> (gvalue \<times> int) list" where
  "right_part ks vs cs i = wr (zip (drop i ks) (drop i vs)) (map inorder (drop (Suc i) cs))"

definition loop_rest :: "BTreeNode \<Rightarrow> nat \<Rightarrow> (gvalue \<times> int) list" where
  "loop_rest n i =
     (if isLeaf n then drop i (zip (keys n) (vals n))
      else wl (map inorder (drop i (children n))) (drop i (zip (keys n) (vals n))))"

definition inserted :: "int \<Rightarrow> int \<Rightarrow> (gvalue \<times> int) list \<Rightarrow> (gvalue \<times> int) list \<Rightarrow> bool" where
  "inserted a r old new =
     (\<exists>xs ys. old = xs @ ys \<and> new = xs @ (VInt a, r) # ys
        \<and> (\<forall>x \<in> set xs. the_int (fst x) < a) \<and> (\<forall>y \<in> set ys. a < the_int (fst y)))"

section \<open>Tables\<close>

record Table =
  Schema :: Schema
  Rows :: "Row list"

text \<open>
  \<^verbatim>\<open>InsertRow\<close>. The three loops of the source, each stopping at its first error; the
  row is appended only when all of them pass. A slice access out of range is the panic
  \<open>IndexOutOfRange\<close>.
\<close>

fun validate_from :: "gvalue list \<Rightarrow> Column list \<Rightarrow> int \<Rightarrow> error option" where
  "validate_from vs [] i = None"
| "validate_from vs (col # cols) i =
     (case slice_get vs i of
        None \<Rightarrow> Some IndexOutOfRange
      | Some v \<Rightarrow>
          (case ValidateValue v col of
             Some e \<Rightarrow> Some e
           | None \<Rightarrow> validate_from vs cols (i + 1)))"

fun scan_rows :: "Row list \<Rightarrow> int \<Rightarrow> gvalue \<Rightarrow> error option" where
  "scan_rows [] idx v = None"
| "scan_rows (existingRow # rows) idx v =
     (case slice_get (Values existingRow) idx of
        None \<Rightarrow> Some IndexOutOfRange
      | Some x \<Rightarrow> (if go_eq x v then Some DuplicateKey else scan_rows rows idx v))"

fun check_primary :: "Schema \<Rightarrow> Row list \<Rightarrow> Row \<Rightarrow> string list \<Rightarrow> error option" where
  "check_primary s rows row [] = None"
| "check_primary s rows row (pkCol # pks) =
     (let pkIndex = GetColumnIndex s pkCol in
      if pkIndex = -1 then check_primary s rows row pks
      else
        (case slice_get (Values row) pkIndex of
           None \<Rightarrow> Some IndexOutOfRange
         | Some pkValue \<Rightarrow>
             (case scan_rows rows pkIndex pkValue of
                Some e \<Rightarrow> Some e
              | None \<Rightarrow> check_primary s rows row pks)))"

fun check_unique :: "Schema \<Rightarrow> Row list \<Rightarrow> Row \<Rightarrow> string list \<Rightarrow> error option" where
  "check_unique s rows row [] = None"
| "check_unique s rows row (uniqueCol # us) =
     (let uniqueIndex = GetColumnIndex s uniqueCol in
      if uniqueIndex = -1 then check_unique s rows row us
      else
        (case slice_get (Values row) uniqueIndex of
           None \<Rightarrow> Some IndexOutOfRange
         | Some uniqueValue \<Rightarrow>
             (if uniqueValue = VNil then check_unique s rows row us
              else
                (case scan_rows rows uniqueIndex uniqueValue of
                   Some e \<Rightarrow> Some e
                 | None \<Rightarrow> check_unique s rows row us))))"

definition InsertRow :: "Table \<Rightarrow> Row \<Rightarrow> Table \<times> error option" where
  "InsertRow t row =
     (if length (Values row) \<noteq> length (Columns (Schema t)) then (t, Some ArityMismatch)
      else
        (case validate_from (Values row) (Columns (Schema t)) 0 of
           Some e \<Rightarrow> (t, Some e)
         | None \<Rightarrow>
             (case check_primary (Schema t) (Rows t) row (PrimaryKeys (Schema t)) of
                Some e \<Rightarrow> (t, Some e)
              | None \<Rightarrow>
                  (case check_unique (Schema t) (Rows t) row (UniqueKeys (Schema t)) of
                     Some e \<Rightarrow> (t, Some e)
                   | None \<Rightarrow> (t\<lparr>Rows := Rows t @ [row]\<rparr>, None)))))"

definition SelectRows :: "Table \<Rightarrow> Row list" where
  "SelectRows t = Rows t"

text \<open>
  \<^verbatim>\<open>UpdateRows\<close>. The condition is a Go closure or \<^verbatim>\<open>nil\<close>. The updates are a Go
  map; they are given here as the sequence of its entries in the order in which
  \<^verbatim>\<open>range\<close> visits them. Each entry is validated and then written at once, before the
  next entry is looked at. The result is the table as the call leaves it, the count and
  the error.
\<close>

definition row_matches :: "(Row \<Rightarrow> bool) option \<Rightarrow> Row \<Rightarrow> bool" where
  "row_matches condition row = (case condition of None \<Rightarrow> True | Some f \<Rightarrow> f row)"

fun apply_updates :: "Schema \<Rightarrow> Row \<Rightarrow> (string \<times> gvalue) list \<Rightarrow> Row \<times> error option" where
  "apply_updates s row [] = (row, None)"
| "apply_updates s row ((colName, v) # us) =
     (let colIndex = GetColumnIndex s colName in
      if colIndex = -1 then (row, Some NotFound)
      else
        (case slice_get (Columns s) colIndex of
           None \<Rightarrow> (row, Some IndexOutOfRange)
         | Some col \<Rightarrow>
             (case ValidateValue v col of
                Some e \<Rightarrow> (row, Some e)
              | None \<Rightarrow>
                  (case slice_set (Values row) colIndex v of
                     None \<Rightarrow> (row, Some IndexOutOfRange)
                   | Some vs \<Rightarrow> apply_updates s (row\<lparr>Values := vs\<rparr>) us))))"

fun update_loop ::
  "Schema \<Rightarrow> (Row \<Rightarrow> bool) option \<Rightarrow> (string \<times> gvalue) list \<Rightarrow> Row list \<Rightarrow> nat
     \<Rightarrow> Row list \<times> nat \<times> error option" where
  "update_loop s condition updates [] count = ([], count, None)"
| "update_loop s condition updates (row # rows) count =
     (if row_matches condition row then
        (case apply_updates s row updates of
           (row', Some e) \<Rightarrow> (row' # rows, count, Some e)
         | (row', None) \<Rightarrow>
             (case update_loop s condition updates rows (count + 1) of
                (rows', n, e) \<Rightarrow> (row' # rows', n, e)))
      else
        (case update_loop s condition updates rows count of
           (rows', n, e) \<Rightarrow> (row # rows', n, e)))"

definition UpdateRows ::
  "Table \<Rightarrow> (Row \<Rightarrow> bool) option \<Rightarrow> (string \<times> gvalue) list \<Rightarrow> Table \<times> nat \<times> error option" where
  "UpdateRows t condition updates =
     (case update_loop (Schema t) condition updates (Rows t) 0 of
        (rows', n, e) \<Rightarrow> (t\<lparr>Rows := rows'\<rparr>, n, e))"

definition DeleteRows :: "Table \<Rightarrow> (Row \<Rightarrow> bool) option \<Rightarrow> Table \<times> nat" where
  "DeleteRows t condition =
     (case condition of
        None \<Rightarrow> (t\<lparr>Rows := []\<rparr>, length (Rows t))
      | Some f \<Rightarrow>
          (t\<lparr>Rows := filter (\<lambda>row. \<not> f row) (Rows t)\<rparr>, length (filter f (Rows t))))"

text \<open>
  The schema that \<^verbatim>\<open>executeCreateTable\<close> builds: \<^verbatim>\<open>NewSchema\<close>, then \<^verbatim>\<open>AddColumn\<close> for
  each column definition in turn.
\<close>

definition schema_of :: "string \<Rightarrow> Column list \<Rightarrow> Schema" where
  "schema_of name cols = foldl AddColumn (NewSchema name) cols"

text \<open>
  Notions used to state the properties of \<open>InsertRow\<close> and \<open>UpdateRows\<close>: some existing
  row holds a value equal (Go's \<^verbatim>\<open>==\<close>) to the candidate's in column \<open>i\<close>; the candidate
  has the schema's arity and every value passes \<open>ValidateValue\<close>; a key constraint is
  violated; the error, if any, that one entry of an update set meets.
\<close>

definition collides :: "Row list \<Rightarrow> Row \<Rightarrow> nat \<Rightarrow> bool" where
  "collides rows row i = (\<exists>r \<in> set rows. go_eq (Values r ! i) (Values row ! i))"

definition row_valid :: "Schema \<Rightarrow> Row \<Rightarrow> bool" where
  "row_valid s row =
     (length (Values row) = length (Columns s)
      \<and> (\<forall>i < length (Columns s). ValidateValue (Values row ! i) (Columns s ! i) = None))"

definition duplicate_key :: "Table \<Rightarrow> Row \<Rightarrow> bool" where
  "duplicate_key t row =
     (\<exists>i < length (Columns (Schema t)).
        (PrimaryKey (Columns (Schema t) ! i) \<and> collides (Rows t) row i)
        \<or> (Unique (Columns (Schema t) ! i) \<and> Values row ! i \<noteq> VNil \<and> collides (Rows t) row i))"

definition update_error :: "Schema \<Rightarrow> string \<times> gvalue \<Rightarrow> error option" where
  "update_error s u =
     (if GetColumnIndex s (fst u) = -1 then Some NotFound
      else ValidateValue (snd u) (Columns s ! nat (GetColumnIndex s (fst u))))"

text \<open>
  What \<open>UpdateRows\<close> is to leave in a row to which the updates \<open>us\<close> have been applied:
  each cell holds the value of the last entry of \<open>us\<close> that names the cell's column,
  and its old value when no entry does. (The entries of a Go map have distinct keys, so at
  most one entry names a column.)
\<close>

definition with_updates :: "Schema \<Rightarrow> (string \<times> gvalue) list \<Rightarrow> Row \<Rightarrow> Row" where
  "with_updates s us r =
     r\<lparr>Values :=
        map (\<lambda>i. case find (\<lambda>u. GetColumnIndex s (fst u) = int i) (rev us) of
                   Some u \<Rightarrow> snd u
                 | None \<Rightarrow> Values r ! i)
          [0..<length (Values r)]\<rparr>"

text \<open>Example data: the table \<^verbatim>\<open>t(id INTEGER PRIMARY KEY, v VARCHAR(10) UNIQUE)\<close>.\<close>

definition column :: "string \<Rightarrow> DataType \<Rightarrow> int \<Rightarrow> bool \<Rightarrow> bool \<Rightarrow> bool \<Rightarrow> Column" where
  "column n ty sz pk uq nn =
     \<lparr>Name = n, DataType = ty, Size = sz, PrimaryKey = pk, Unique = uq, NotNull = nn\<rparr>"

definition users_schema :: Schema where
  "users_schema = schema_of ''t''
     [column ''id'' TypeInteger 0 True False False, column ''v'' TypeVarchar 10 False True False]"

section \<open>The index manager\<close>

text \<open>
  \<open>table \<rightarrow> column \<rightarrow> tree\<close>. \<^verbatim>\<open>Insert\<close>, \<^verbatim>\<open>Search\<close> and \<^verbatim>\<open>Delete\<close> of the
  manager pass through to the tree when there is one.
\<close>

record Manager =
  indexes :: "string \<rightharpoonup> (string \<rightharpoonup> BTree)"

definition NewManager :: Manager where
  "NewManager = \<lparr>indexes = Map.empty\<rparr>"

definition CreateIndex :: "Manager \<Rightarrow> string \<Rightarrow> string \<Rightarrow> Manager \<times> error option" where
  "CreateIndex m tableName columnName =
     (let m1 = (if indexes m tableName = None
                then m\<lparr>indexes := (indexes m)(tableName \<mapsto> Map.empty)\<rparr> else m);
          cols = (case indexes m1 tableName of None \<Rightarrow> Map.empty | Some c \<Rightarrow> c)
      in if cols columnName \<noteq> None then (m1, Some AlreadyExists)
         else (m1\<lparr>indexes := (indexes m1)(tableName \<mapsto> cols(columnName \<mapsto> NewBTree))\<rparr>, None))"

definition DropTableIndexes :: "Manager \<Rightarrow> string \<Rightarrow> Manager" where
  "DropTableIndexes m tableName = m\<lparr>indexes := (indexes m)(tableName := None)\<rparr>"

definition HasIndex :: "Manager \<Rightarrow> string \<Rightarrow> string \<Rightarrow> bool" where
  "HasIndex m tableName columnName =
     (case indexes m tableName of None \<Rightarrow> False | Some cols \<Rightarrow> cols columnName \<noteq> None)"

definition Manager_Search :: "Manager \<Rightarrow> string \<Rightarrow> string \<Rightarrow> gvalue \<Rightarrow> (int \<times> bool) option" where
  "Manager_Search m tableName columnName key =
     (case indexes m tableName of
        None \<Rightarrow> Some (-1, False)
      | Some cols \<Rightarrow>
          (case cols columnName of
             Some btree \<Rightarrow> Search btree key
           | None \<Rightarrow> Some (-1, False)))"

section \<open>The storage engine\<close>

text \<open>
  The data directory is a list of files, each holding the stream of values that a
  \<^verbatim>\<open>gob\<close> encoder wrote, and a predicate telling which paths \<^verbatim>\<open>os.Create\<close> refuses.
  The encoding itself is taken as lossless: \<^verbatim>\<open>Encode\<close> appends a value, \<^verbatim>\<open>Decode\<close>
  reads the next one and fails when it is of another type. The tables of a storage are
  a Go map, given as an association list; a file is named after the table, with the
  extension \<^verbatim>\<open>.tbl\<close>. Creating the data directory at startup is left out.
\<close>

datatype gob = GobSchema Schema | GobRows "Row list"

record FileSystem =
  files :: "(string \<times> gob list) list"
  refuses :: "string \<Rightarrow> bool"

record Storage =
  tables :: "(string \<times> Table) list"
  indexMgr :: Manager

definition getTableFilePath :: "string \<Rightarrow> string" where
  "getTableFilePath tableName = tableName @ ''.tbl''"

definition saveTable :: "FileSystem \<Rightarrow> Table \<Rightarrow> FileSystem \<times> error option" where
  "saveTable fs table =
     (let filePath = getTableFilePath (TableName (Schema table)) in
      if refuses fs filePath then (fs, Some IOError)
      else (fs\<lparr>files := AList.update filePath [GobSchema (Schema table), GobRows (Rows table)]
                            (files fs)\<rparr>, None))"

fun save_each :: "FileSystem \<Rightarrow> (string \<times> Table) list \<Rightarrow> FileSystem \<times> error option" where
  "save_each fs [] = (fs, None)"
| "save_each fs ((name, table) # rest) =
     (case saveTable fs table of
        (fs', Some e) \<Rightarrow> (fs', Some e)
      | (fs', None) \<Rightarrow> save_each fs' rest)"

definition SaveAllTables :: "Storage \<Rightarrow> FileSystem \<Rightarrow> FileSystem \<times> error option" where
  "SaveAllTables s fs = save_each fs (tables s)"

definition loadTable :: "FileSystem \<Rightarrow> string \<Rightarrow> error + Table" where
  "loadTable fs tableName =
     (case map_of (files fs) (getTableFilePath tableName) of
        None \<Rightarrow> Inl IOError
      | Some stream \<Rightarrow>
          (case stream of
             GobSchema schema # rest \<Rightarrow>
               (case rest of
                  GobRows rows # _ \<Rightarrow> Inr \<lparr>Schema = schema, Rows = rows\<rparr>
                | _ \<Rightarrow> Inl IOError)
           | _ \<Rightarrow> Inl IOError))"

definition has_tbl_ext :: "string \<Rightarrow> bool" where
  "has_tbl_ext name = (length name \<ge> 4 \<and> drop (length name - 4) name = ''.tbl'')"

fun load_each :: "Storage \<Rightarrow> FileSystem \<Rightarrow> string list \<Rightarrow> Storage \<times> error option" where
  "load_each s fs [] = (s, None)"
| "load_each s fs (name # names) =
     (if \<not> has_tbl_ext name then load_each s fs names
      else
        (let tableName = take (length name - 4) name in
         case loadTable fs tableName of
           Inl e \<Rightarrow> (s, Some e)
         | Inr table \<Rightarrow>
             load_each (s\<lparr>tables := AList.update tableName table (tables s)\<rparr>) fs names))"

definition loadTables :: "Storage \<Rightarrow> FileSystem \<Rightarrow> Storage \<times> error option" where
  "loadTables s fs = load_each s fs (map fst (files fs))"

definition NewStorage :: "FileSystem \<Rightarrow> error + Storage" where
  "NewStorage fs =
     (case loadTables \<lparr>tables = [], indexMgr = NewManager\<rparr> fs of
        (s, Some e) \<Rightarrow> Inl e
      | (s, None) \<Rightarrow> Inr s)"

fun create_indexes :: "Manager \<Rightarrow> string \<Rightarrow> Column list \<Rightarrow> Manager \<times> error option" where
  "create_indexes m tableName [] = (m, None)"
| "create_indexes m tableName (col # cols) =
     (if PrimaryKey col \<or> Unique col then
        (case CreateIndex m tableName (Name col) of
           (m', Some e) \<Rightarrow> (m', Some e)
         | (m', None) \<Rightarrow> create_indexes m' tableName cols)
      else create_indexes m tableName cols)"

definition CreateTable :: "Storage \<Rightarrow> FileSystem \<Rightarrow> Schema \<Rightarrow> Storage \<times> FileSystem \<times> error option" where
  "CreateTable s fs schema =
     (if map_of (tables s) (TableName schema) \<noteq> None then (s, fs, Some AlreadyExists)
      else
        (let table = \<lparr>Schema = schema, Rows = []\<rparr>;
             s1 = s\<lparr>tables := AList.update (TableName schema) table (tables s)\<rparr>
         in case create_indexes (indexMgr s1) (TableName schema) (Columns schema) of
              (m, Some e) \<Rightarrow>
                (s1\<lparr>tables := AList.delete (TableName schema) (tables s1), indexMgr := m\<rparr>, fs, Some e)
            | (m, None) \<Rightarrow>
                (case saveTable fs table of
                   (fs', Some e) \<Rightarrow>
                     (s1\<lparr>tables := AList.delete (TableName schema) (tables s1), indexMgr := m\<rparr>,
                      fs', Some e)
                 | (fs', None) \<Rightarrow> (s1\<lparr>indexMgr := m\<rparr>, fs', None))))"

definition DropTable :: "Storage \<Rightarrow> FileSystem \<Rightarrow> string \<Rightarrow> Storage \<times> FileSystem \<times> error option" where
  "DropTable s fs tableName =
     (if map_of (tables s) tableName = None then (s, fs, Some NotFound)
      else
        (let s1 = s\<lparr>tables := AList.delete tableName (tables s),
                    indexMgr := DropTableIndexes (indexMgr s) tableName\<rparr>
         in if refuses fs (getTableFilePath tableName)
               \<and> map_of (files fs) (getTableFilePath tableName) \<noteq> None
            then (s1, fs, Some IOError)
            else (s1, fs\<lparr>files := AList.delete (getTableFilePath tableName) (files fs)\<rparr>, None)))"

definition GetTable :: "Storage \<Rightarrow> string \<Rightarrow> error + Table" where
  "GetTable s tableName =
     (case map_of (tables s) tableName of None \<Rightarrow> Inl NotFound | Some table \<Rightarrow> Inr table)"

definition TableExists :: "Storage \<Rightarrow> string \<Rightarrow> bool" where
  "TableExists s tableName = (map_of (tables s) tableName \<noteq> None)"

section \<open>The execution engine\<close>

text \<open>
  Expressions, and the two statements whose predicate handling is studied. The result
  keeps the count of a status message (\<^verbatim>\<open>"%d row(s) updated"\<close>). A predicate is turned
  into the closure that \<open>UpdateRows\<close> and \<open>DeleteRows\<close> take; the closure answers
  \<^verbatim>\<open>false\<close> when evaluation returns an error. (Reading a cell beyond the end of a row
  would panic inside the closure, which the closure cannot turn into \<^verbatim>\<open>false\<close>; the
  properties below are stated for tables whose rows have the schema's arity, where no
  such read occurs.) An update's \<^verbatim>\<open>SET\<close> map, and the map of evaluated values made
  from it, are given as the list of their entries in one order of iteration.
\<close>

datatype Expression =
    BinaryExpr Expression string Expression
  | Identifier string
  | Literal gvalue
  | NullLiteral

datatype UpdateStmt =
  UpdateStmt (update_table: string) (update_set: "(string \<times> Expression) list")
    (update_where: "Expression option")

datatype DeleteStmt =
  DeleteStmt (delete_table: string) (delete_where: "Expression option")

datatype Result = RowsUpdated nat | RowsDeleted nat

fun evaluateExpression :: "Expression \<Rightarrow> error + gvalue" where
  "evaluateExpression (Literal v) = Inr v"
| "evaluateExpression NullLiteral = Inr VNil"
| "evaluateExpression (Identifier _) = Inl UnsupportedExpression"
| "evaluateExpression (BinaryExpr _ _ _) = Inl UnsupportedExpression"

fun getColumnValue :: "Expression \<Rightarrow> Row \<Rightarrow> Schema \<Rightarrow> error + gvalue" where
  "getColumnValue (Identifier name) row schema =
     (let idx = GetColumnIndex schema name in
      if idx = -1 then Inl NotFound
      else (case slice_get (Values row) idx of None \<Rightarrow> Inl IndexOutOfRange | Some v \<Rightarrow> Inr v))"
| "getColumnValue (Literal v) row schema = Inr v"
| "getColumnValue NullLiteral row schema = Inr VNil"
| "getColumnValue (BinaryExpr _ _ _) row schema = Inl UnsupportedExpression"

fun evaluateCondition :: "Expression \<Rightarrow> Row \<Rightarrow> Schema \<Rightarrow> error + bool" where
  "evaluateCondition (BinaryExpr l operator r) row schema =
     (case getColumnValue l row schema of
        Inl e \<Rightarrow> Inl e
      | Inr left \<Rightarrow>
          (case getColumnValue r row schema of
             Inl e \<Rightarrow> Inl e
           | Inr right \<Rightarrow> compareValues left right operator))"
| "evaluateCondition _ row schema = Inl UnsupportedExpression"

definition where_closure :: "Expression option \<Rightarrow> Schema \<Rightarrow> (Row \<Rightarrow> bool) option" where
  "where_closure w schema =
     (case w of
        None \<Rightarrow> None
      | Some ex \<Rightarrow>
          Some (\<lambda>row. case evaluateCondition ex row schema of Inl err \<Rightarrow> False | Inr match \<Rightarrow> match))"

fun evaluate_set :: "(string \<times> Expression) list \<Rightarrow> error + (string \<times> gvalue) list" where
  "evaluate_set [] = Inr []"
| "evaluate_set ((colName, expr) # rest) =
     (case evaluateExpression expr of
        Inl e \<Rightarrow> Inl e
      | Inr v \<Rightarrow>
          (case evaluate_set rest of
             Inl e \<Rightarrow> Inl e
           | Inr updates \<Rightarrow> Inr ((colName, v) # updates)))"

definition executeUpdate ::
  "Storage \<Rightarrow> FileSystem \<Rightarrow> UpdateStmt \<Rightarrow> Storage \<times> FileSystem \<times> (error + Result)" where
  "executeUpdate s fs stmt =
     (case GetTable s (update_table stmt) of
        Inl e \<Rightarrow> (s, fs, Inl e)
      | Inr table \<Rightarrow>
          (case evaluate_set (update_set stmt) of
             Inl e \<Rightarrow> (s, fs, Inl e)
           | Inr updates \<Rightarrow>
               (case UpdateRows table (where_closure (update_where stmt) (Schema table)) updates of
                  (table', count, err) \<Rightarrow>
                    (let s' = s\<lparr>tables := AList.update (update_table stmt) table' (tables s)\<rparr> in
                     case err of
                       Some e \<Rightarrow> (s', fs, Inl e)
                     | None \<Rightarrow>
                         (case SaveAllTables s' fs of
                            (fs', Some e) \<Rightarrow> (s', fs', Inl e)
                          | (fs', None) \<Rightarrow> (s', fs', Inr (RowsUpdated count)))))))"

definition executeDelete ::
  "Storage \<Rightarrow> FileSystem \<Rightarrow> DeleteStmt \<Rightarrow> Storage \<times> FileSystem \<times> (error + Result)" where
  "executeDelete s fs stmt =
     (case GetTable s (delete_table stmt) of
        Inl e \<Rightarrow> (s, fs, Inl e)
      | Inr table \<Rightarrow>
          (case DeleteRows table (where_closure (delete_where stmt) (Schema table)) of
             (table', count) \<Rightarrow>
               (let s' = s\<lparr>tables := AList.update (delete_table stmt) table' (tables s)\<rparr> in
                case SaveAllTables s' fs of
                  (fs', Some e) \<Rightarrow> (s', fs', Inl e)
                | (fs', None) \<Rightarrow> (s', fs', Inr (RowsDeleted count)))))"

section \<open>Row accessors\<close>

text \<open>
  C10. \<^verbatim>\<open>Row.Get\<close> and \<^verbatim>\<open>Row.Set\<close> never panic, whatever the index: \<open>Get\<close> gives
  the stored value in range and null out of range; \<open>Set\<close> writes the one cell in range
  and returns the row as it was out of range.
\<close>

theorem Row_accessors_total:
  "Get r i = Some (if 0 \<le> i \<and> i < int (length (Values r)) then Values r ! nat i else VNil)
   \<and> Set r i v = Some (if 0 \<le> i \<and> i < int (length (Values r))
                        then r\<lparr>Values := (Values r)[nat i := v]\<rparr> else r)"
  by (simp add: Get_def Set_def slice_get_def slice_set_def)

theorem Row_accessors_total_witness:
  "Get \<lparr>Values = [VInt 1, VText ''a'']\<rparr> 2 = Some VNil
   \<and> Get \<lparr>Values = [VInt 1, VText ''a'']\<rparr> (-1) = Some VNil
   \<and> Get \<lparr>Values = [VInt 1, VText ''a'']\<rparr> 1 = Some (VText ''a'')
   \<and> Set \<lparr>Values = [VInt 1, VText ''a'']\<rparr> 2 (VInt 7) = Some \<lparr>Values = [VInt 1, VText ''a'']\<rparr>
   \<and> Set \<lparr>Values = [VInt 1, VText ''a'']\<rparr> 0 (VInt 7) = Some \<lparr>Values = [VInt 7, VText ''a'']\<rparr>"
  using Row_accessors_total [of "\<lparr>Values = [VInt 1, VText ''a'']\<rparr>" 2 "VInt 7"]
    Row_accessors_total [of "\<lparr>Values = [VInt 1, VText ''a'']\<rparr>" "-1" "VInt 7"]
    Row_accessors_total [of "\<lparr>Values = [VInt 1, VText ''a'']\<rparr>" 1 "VInt 7"]
    Row_accessors_total [of "\<lparr>Values = [VInt 1, VText ''a'']\<rparr>" 0 "VInt 7"]
  by simp

section \<open>Comparisons in predicates and in the index\<close>

text \<open>
  C8. When at least one operand is null, \<open>compareValues\<close> returns without error: true
  for the operator \<open>=\<close> when both operands are null, false for \<open>=\<close> between null and a
  value and for each of \<open>!=\<close>, \<open><\<close>, \<open>>\<close>, \<open><=\<close>, \<open>>=\<close>.
\<close>

theorem compareValues_null:
  assumes "left = VNil \<or> right = VNil"
    and "operator \<in> {''='', ''!='', ''<'', ''>'', ''<='', ''>=''}"
  shows "compareValues left right operator
           = Inr (operator = ''='' \<and> left = VNil \<and> right = VNil)"
proof (cases "operator = ''=''")
  case True
  with assms(1) show ?thesis
    by (cases left; cases right; simp add: compareValues_def)
next
  case False
  with assms(1) show ?thesis
    by (auto simp add: compareValues_def)
qed

theorem compareValues_null_witness:
  "compareValues VNil VNil ''='' = Inr True
   \<and> compareValues VNil (VInt 3) ''='' = Inr False
   \<and> compareValues (VText ''a'') VNil ''<='' = Inr False
   \<and> compareValues VNil VNil ''!='' = Inr False"
  using compareValues_null [of VNil VNil "''=''"]
    compareValues_null [of VNil "VInt 3" "''=''"]
    compareValues_null [of "VText ''a''" VNil "''<=''"]
    compareValues_null [of VNil VNil "''!=''"]
  by simp

text \<open>
  C3, as the code has it. The claim says that comparing two non-null values of different
  dynamic types always fails with \<open>IncomparableTypes\<close>. The index's \<open>compare\<close> has no
  error result and answers \<open>0\<close>, and \<open>compareValues\<close> answers false for \<open>=\<close> without
  an error.
\<close>

theorem cross_type_counterexample:
  "compare (VInt 1) (VText ''a'') = 0
   \<and> compareValues (VInt 1) (VText ''a'') ''='' = Inr False"
  by (simp add: compareValues_def)

text \<open>
  C3, amended. For two non-null values of different dynamic types, \<open>compareValues\<close>
  fails with \<open>IncomparableTypes\<close> for the operators \<open><\<close> and \<open>>\<close>; for \<open>=\<close> it
  answers false and for \<open>!=\<close> true, both without error; \<open>compare\<close> answers \<open>0\<close>.
\<close>

theorem cross_type_comparison:
  assumes "dyn_type a = Some ta" and "dyn_type b = Some tb" and "ta \<noteq> tb"
  shows "compare a b = 0
    \<and> compareValues a b ''='' = Inr False
    \<and> compareValues a b ''!='' = Inr True
    \<and> compareValues a b ''<'' = Inl IncomparableTypes
    \<and> compareValues a b ''>'' = Inl IncomparableTypes"
  using assms by (cases a; cases b) (auto simp add: compareValues_def)

theorem cross_type_comparison_witness:
  "compare (VFloat (FNum 2)) (VInt 2) = 0
    \<and> compareValues (VFloat (FNum 2)) (VInt 2) ''='' = Inr False
    \<and> compareValues (VFloat (FNum 2)) (VInt 2) ''!='' = Inr True
    \<and> compareValues (VFloat (FNum 2)) (VInt 2) ''<'' = Inl IncomparableTypes
    \<and> compareValues (VFloat (FNum 2)) (VInt 2) ''>'' = Inl IncomparableTypes"
  using cross_type_comparison [of "VFloat (FNum 2)" DFloat "VInt 2" DInt]
  by simp

section \<open>Schemas and column lookup\<close>

lemma foldl_AddColumn:
  "foldl AddColumn s cols =
     s\<lparr>Columns := Columns s @ cols,
       PrimaryKeys := PrimaryKeys s @ map Name (filter PrimaryKey cols),
       UniqueKeys := UniqueKeys s @ map Name (filter Unique cols)\<rparr>"
  by (induction cols arbitrary: s) (auto simp add: AddColumn_def)

lemma schema_of_fields:
  "Columns (schema_of name cols) = cols"
  "PrimaryKeys (schema_of name cols) = map Name (filter PrimaryKey cols)"
  "UniqueKeys (schema_of name cols) = map Name (filter Unique cols)"
  "TableName (schema_of name cols) = name"
  by (simp_all add: schema_of_def foldl_AddColumn NewSchema_def)

lemma column_index_from_distinct:
  "distinct (map Name cols) \<Longrightarrow> j < length cols \<Longrightarrow>
     column_index_from cols (Name (cols ! j)) i = i + int j"
proof (induction cols arbitrary: i j)
  case Nil
  then show ?case by simp
next
  case (Cons c cols)
  show ?case
  proof (cases j)
    case 0
    then show ?thesis by simp
  next
    case (Suc k)
    with Cons.prems have k: "k < length cols" and d: "distinct (map Name cols)"
      and ne: "Name c \<noteq> Name (cols ! k)"
      by auto
    from Cons.IH [OF d k, of "i + 1"] Suc ne show ?thesis by simp
  qed
qed

lemma column_index_from_range:
  "column_index_from cols name i = -1 \<or>
     (i \<le> column_index_from cols name i \<and> column_index_from cols name i < i + int (length cols))"
  if "0 \<le> i"
  using that
proof (induction cols arbitrary: i)
  case Nil
  then show ?case by simp
next
  case (Cons c cols)
  from Cons.IH [of "i + 1"] Cons.prems show ?case by auto
qed

lemma GetColumnIndex_range:
  "GetColumnIndex s n = -1 \<or> (0 \<le> GetColumnIndex s n \<and> GetColumnIndex s n < int (length (Columns s)))"
  using column_index_from_range [of 0 "Columns s" n] by (simp add: GetColumnIndex_def)

lemma GetColumnIndex_distinct:
  "distinct (map Name (Columns s)) \<Longrightarrow> j < length (Columns s) \<Longrightarrow>
     GetColumnIndex s (Name (Columns s ! j)) = int j"
  using column_index_from_distinct [of "Columns s" j 0] by (simp add: GetColumnIndex_def)

lemma names_to_indices:
  assumes "distinct (map Name (Columns s))"
  shows "(\<exists>n \<in> set (map Name (filter F (Columns s))). GetColumnIndex s n \<noteq> -1 \<and> P (nat (GetColumnIndex s n)))
     \<longleftrightarrow> (\<exists>i < length (Columns s). F (Columns s ! i) \<and> P i)"
proof
  assume "\<exists>n \<in> set (map Name (filter F (Columns s))). GetColumnIndex s n \<noteq> -1 \<and> P (nat (GetColumnIndex s n))"
  then obtain c where c: "c \<in> set (Columns s)" "F c" "P (nat (GetColumnIndex s (Name c)))"
    by auto
  from c(1) obtain i where i: "i < length (Columns s)" "Columns s ! i = c"
    by (auto simp add: in_set_conv_nth)
  from GetColumnIndex_distinct [OF assms i(1)] i(2) have "GetColumnIndex s (Name c) = int i"
    by simp
  with c i show "\<exists>i < length (Columns s). F (Columns s ! i) \<and> P i"
    by auto
next
  assume "\<exists>i < length (Columns s). F (Columns s ! i) \<and> P i"
  then obtain i where i: "i < length (Columns s)" "F (Columns s ! i)" "P i"
    by auto
  from GetColumnIndex_distinct [OF assms i(1)]
  have g: "GetColumnIndex s (Name (Columns s ! i)) = int i" .
  from i have "Name (Columns s ! i) \<in> set (map Name (filter F (Columns s)))"
    by auto
  with g i(3) show "\<exists>n \<in> set (map Name (filter F (Columns s))). GetColumnIndex s n \<noteq> -1 \<and> P (nat (GetColumnIndex s n))"
    by force
qed

lemmas example_simps =
  users_schema_def column_def schema_of_fields GetColumnIndex_def slice_get_def slice_set_def
  row_matches_def

section \<open>Inserting a row\<close>

lemma validate_from_None:
  "0 \<le> i \<Longrightarrow> nat i + length cols \<le> length vs \<Longrightarrow>
     validate_from vs cols i = None \<longleftrightarrow>
       (\<forall>j < length cols. ValidateValue (vs ! (nat i + j)) (cols ! j) = None)"
proof (induction cols arbitrary: i)
  case Nil
  then show ?case by simp
next
  case (Cons c cols)
  from Cons.prems have g: "slice_get vs i = Some (vs ! nat i)"
    by (simp add: slice_get_def)
  have step: "validate_from vs cols (i + 1) = None \<longleftrightarrow>
       (\<forall>j < length cols. ValidateValue (vs ! (nat (i + 1) + j)) (cols ! j) = None)"
    using Cons.prems by (intro Cons.IH) auto
  have n: "nat (i + 1) = Suc (nat i)" using Cons.prems by simp
  show ?case
    by (simp add: g step n All_less_Suc2 split: option.splits)
qed

lemma scan_rows_result:
  "\<forall>r \<in> set rows. idx < int (length (Values r)) \<Longrightarrow> 0 \<le> idx \<Longrightarrow>
     scan_rows rows idx v =
       (if \<exists>r \<in> set rows. go_eq (Values r ! nat idx) v then Some DuplicateKey else None)"
  by (induction rows) (auto simp add: slice_get_def)

lemma scan_rows_collides:
  assumes "\<forall>r \<in> set rows. length (Values r) = n" and "0 \<le> idx" and "idx < int n"
    and "length (Values row) = n"
  shows "scan_rows rows idx (Values row ! nat idx) =
           (if collides rows row (nat idx) then Some DuplicateKey else None)"
  using scan_rows_result [of rows idx "Values row ! nat idx"] assms
  by (auto simp add: collides_def)

lemma check_primary_result:
  assumes "\<forall>r \<in> set rows. length (Values r) = length (Columns s)"
    and "length (Values row) = length (Columns s)"
  shows "check_primary s rows row pks =
     (if \<exists>n \<in> set pks. GetColumnIndex s n \<noteq> -1 \<and> collides rows row (nat (GetColumnIndex s n))
      then Some DuplicateKey else None)"
proof (induction pks)
  case Nil
  then show ?case by simp
next
  case (Cons n pks)
  show ?case
  proof (cases "GetColumnIndex s n = -1")
    case True
    with Cons.IH show ?thesis by simp
  next
    case False
    with GetColumnIndex_range [of s n]
    have r: "0 \<le> GetColumnIndex s n" "GetColumnIndex s n < int (length (Columns s))"
      by auto
    with assms(2) have g: "slice_get (Values row) (GetColumnIndex s n)
        = Some (Values row ! nat (GetColumnIndex s n))"
      by (simp add: slice_get_def)
    note sc = scan_rows_collides [OF assms(1) r assms(2)]
    from False show ?thesis
      by (simp add: g sc Cons.IH Let_def)
  qed
qed

lemma check_unique_result:
  assumes "\<forall>r \<in> set rows. length (Values r) = length (Columns s)"
    and "length (Values row) = length (Columns s)"
  shows "check_unique s rows row us =
     (if \<exists>n \<in> set us. GetColumnIndex s n \<noteq> -1
            \<and> Values row ! nat (GetColumnIndex s n) \<noteq> VNil
            \<and> collides rows row (nat (GetColumnIndex s n))
      then Some DuplicateKey else None)"
proof (induction us)
  case Nil
  then show ?case by simp
next
  case (Cons n us)
  show ?case
  proof (cases "GetColumnIndex s n = -1")
    case True
    with Cons.IH show ?thesis by simp
  next
    case False
    with GetColumnIndex_range [of s n]
    have r: "0 \<le> GetColumnIndex s n" "GetColumnIndex s n < int (length (Columns s))"
      by auto
    with assms(2) have g: "slice_get (Values row) (GetColumnIndex s n)
        = Some (Values row ! nat (GetColumnIndex s n))"
      by (simp add: slice_get_def)
    note sc = scan_rows_collides [OF assms(1) r assms(2)]
    from False show ?thesis
      by (simp add: g sc Cons.IH Let_def)
  qed
qed

lemma InsertRow_failure_unchanged:
  "snd (InsertRow t row) \<noteq> None \<Longrightarrow> fst (InsertRow t row) = t"
  by (auto simp add: InsertRow_def split: option.splits if_splits)

lemma InsertRow_duplicate_key:
  assumes "Schema t = schema_of name cols"
    and "distinct (map Name cols)"
    and "\<forall>r \<in> set (Rows t). length (Values r) = length cols"
    and "row_valid (Schema t) row"
  shows "InsertRow t row =
     (if duplicate_key t row then (t, Some DuplicateKey) else (t\<lparr>Rows := Rows t @ [row]\<rparr>, None))"
proof -
  let ?s = "Schema t"
  have cols: "Columns ?s = cols" and pk: "PrimaryKeys ?s = map Name (filter PrimaryKey (Columns ?s))"
    and uq: "UniqueKeys ?s = map Name (filter Unique (Columns ?s))"
    using assms(1) by (simp_all add: schema_of_fields)
  from assms(4) have len: "length (Values row) = length (Columns ?s)"
    and ok: "\<forall>i < length (Columns ?s). ValidateValue (Values row ! i) (Columns ?s ! i) = None"
    by (simp_all add: row_valid_def)
  from assms(3) cols have rows: "\<forall>r \<in> set (Rows t). length (Values r) = length (Columns ?s)"
    by simp
  from assms(2) cols have d: "distinct (map Name (Columns ?s))" by simp
  have v: "validate_from (Values row) (Columns ?s) 0 = None"
    using validate_from_None [of 0 "Columns ?s" "Values row"] len ok by simp
  have p: "check_primary ?s (Rows t) row (PrimaryKeys ?s) =
      (if \<exists>i < length (Columns ?s). PrimaryKey (Columns ?s ! i) \<and> collides (Rows t) row i
       then Some DuplicateKey else None)"
    unfolding check_primary_result [OF rows len]
    by (subst pk, subst names_to_indices [OF d]) simp
  have u: "check_unique ?s (Rows t) row (UniqueKeys ?s) =
      (if \<exists>i < length (Columns ?s). Unique (Columns ?s ! i) \<and> (Values row ! i \<noteq> VNil \<and> collides (Rows t) row i)
       then Some DuplicateKey else None)"
    unfolding check_unique_result [OF rows len]
    by (subst uq, subst names_to_indices [OF d, where P = "\<lambda>i. Values row ! i \<noteq> VNil \<and> collides (Rows t) row i"]) simp
  show ?thesis
    unfolding InsertRow_def duplicate_key_def
    by (simp only: len v p u) (auto split: option.splits)
qed

text \<open>
  C2, as the code has it. The claim says that a null value never triggers
  \<open>DuplicateKey\<close>. The primary-key loop of \<open>InsertRow\<close> has no null check (the
  unique-key loop has one), and a primary-key column may be nullable: with a row whose
  key is null in the table, a candidate whose key is null is valid and is refused with
  \<open>DuplicateKey\<close>.
\<close>

theorem InsertRow_null_key_counterexample:
  "ValidateValue VNil (column ''id'' TypeInteger 0 True False False) = None
   \<and> InsertRow
       \<lparr>Schema = schema_of ''t'' [column ''id'' TypeInteger 0 True False False],
        Rows = [\<lparr>Values = [VNil]\<rparr>]\<rparr>
       \<lparr>Values = [VNil]\<rparr>
     = (\<lparr>Schema = schema_of ''t'' [column ''id'' TypeInteger 0 True False False],
         Rows = [\<lparr>Values = [VNil]\<rparr>]\<rparr>, Some DuplicateKey)"
  by (simp add: InsertRow_def example_simps)

text \<open>
  C2, amended. For a table whose schema was built by \<open>AddColumn\<close> from columns with
  pairwise distinct names and whose rows have the schema's arity, and a candidate row of
  correct arity with valid values: \<open>InsertRow\<close> returns \<open>DuplicateKey\<close> and leaves the
  table as it was exactly when some existing row holds an equal value in a primary-key
  column (two nulls are equal) or an equal non-null value in a unique column; otherwise
  it appends the row. For any candidate at all, a failing \<open>InsertRow\<close> leaves the table
  unchanged.
\<close>

theorem InsertRow_result:
  assumes "Schema t = schema_of name cols"
    and "distinct (map Name cols)"
    and "\<forall>r \<in> set (Rows t). length (Values r) = length cols"
    and "row_valid (Schema t) row"
  shows "InsertRow t row =
     (if duplicate_key t row then (t, Some DuplicateKey) else (t\<lparr>Rows := Rows t @ [row]\<rparr>, None))
     \<and> (\<forall>any. snd (InsertRow t any) \<noteq> None \<longrightarrow> fst (InsertRow t any) = t)"
  using InsertRow_duplicate_key [OF assms] InsertRow_failure_unchanged by blast

theorem InsertRow_result_witness:
  "InsertRow \<lparr>Schema = users_schema, Rows = [\<lparr>Values = [VInt 1, VText ''x'']\<rparr>]\<rparr>
      \<lparr>Values = [VInt 1, VText ''y'']\<rparr>
    = (\<lparr>Schema = users_schema, Rows = [\<lparr>Values = [VInt 1, VText ''x'']\<rparr>]\<rparr>, Some DuplicateKey)
   \<and> InsertRow \<lparr>Schema = users_schema, Rows = [\<lparr>Values = [VInt 1, VNil]\<rparr>]\<rparr>
      \<lparr>Values = [VInt 2, VNil]\<rparr>
    = (\<lparr>Schema = users_schema,
        Rows = [\<lparr>Values = [VInt 1, VNil]\<rparr>, \<lparr>Values = [VInt 2, VNil]\<rparr>]\<rparr>, None)"
  using
    InsertRow_result [of "\<lparr>Schema = users_schema, Rows = [\<lparr>Values = [VInt 1, VText ''x'']\<rparr>]\<rparr>"
      "''t''" "[column ''id'' TypeInteger 0 True False False, column ''v'' TypeVarchar 10 False True False]"
      "\<lparr>Values = [VInt 1, VText ''y'']\<rparr>"]
    InsertRow_result [of "\<lparr>Schema = users_schema, Rows = [\<lparr>Values = [VInt 1, VNil]\<rparr>]\<rparr>"
      "''t''" "[column ''id'' TypeInteger 0 True False False, column ''v'' TypeVarchar 10 False True False]"
      "\<lparr>Values = [VInt 2, VNil]\<rparr>"]
  by (simp add: example_simps row_valid_def duplicate_key_def collides_def All_less_Suc2 Ex_less_Suc2)

section \<open>Updating rows\<close>

lemma apply_updates_prefix:
  assumes "length (Values r) = length (Columns s)"
    and "\<forall>u \<in> set good. update_error s u = None"
  shows "snd (apply_updates s r good) = None
    \<and> length (Values (fst (apply_updates s r good))) = length (Columns s)
    \<and> apply_updates s r (good @ rest) = apply_updates s (fst (apply_updates s r good)) rest"
  using assms
proof (induction good arbitrary: r)
  case Nil
  then show ?case by simp
next
  case (Cons u good)
  obtain colName v where u: "u = (colName, v)" by (cases u)
  from Cons.prems(2) u have ok: "update_error s (colName, v) = None" by simp
  then have ne: "GetColumnIndex s colName \<noteq> -1"
    by (auto simp add: update_error_def split: if_splits)
  with GetColumnIndex_range [of s colName]
  have rg: "0 \<le> GetColumnIndex s colName" "GetColumnIndex s colName < int (length (Columns s))"
    by auto
  from ok ne have va: "ValidateValue v (Columns s ! nat (GetColumnIndex s colName)) = None"
    by (simp add: update_error_def)
  let ?r = "r\<lparr>Values := (Values r)[nat (GetColumnIndex s colName) := v]\<rparr>"
  have step: "apply_updates s r ((colName, v) # us) = apply_updates s ?r us" for us
    using ne rg va Cons.prems(1) by (simp add: slice_get_def slice_set_def)
  have "length (Values ?r) = length (Columns s)" using Cons.prems(1) by simp
  from Cons.IH [OF this] Cons.prems(2) show ?case
    by (simp add: u step del: apply_updates.simps)
qed

lemma apply_updates_bad:
  assumes "update_error s bad = Some e"
  shows "apply_updates s r (bad # rest) = (r, Some e)"
proof -
  obtain colName v where u: "bad = (colName, v)" by (cases bad)
  show ?thesis
  proof (cases "GetColumnIndex s colName = -1")
    case True
    with assms u show ?thesis by (simp add: update_error_def)
  next
    case False
    with GetColumnIndex_range [of s colName]
    have rg: "0 \<le> GetColumnIndex s colName" "GetColumnIndex s colName < int (length (Columns s))"
      by auto
    with False assms u show ?thesis
      by (simp add: update_error_def slice_get_def)
  qed
qed

lemma update_loop_skip:
  assumes "\<forall>x \<in> set pre. \<not> row_matches c x"
  shows "update_loop s c u (pre @ rows) n =
     (case update_loop s c u rows n of (rows', m, e) \<Rightarrow> (pre @ rows', m, e))"
  using assms by (induction pre) (auto split: prod.splits)

lemma with_updates_length:
  "length (Values (with_updates s us r)) = length (Values r)"
  by (simp add: with_updates_def)

lemma with_updates_snoc:
  assumes "0 \<le> GetColumnIndex s (fst u)"
  shows "with_updates s (us @ [u]) r =
     (with_updates s us r)\<lparr>Values := (Values (with_updates s us r))[nat (GetColumnIndex s (fst u)) := snd u]\<rparr>"
proof -
  have "map (\<lambda>i. case find (\<lambda>u. GetColumnIndex s (fst u) = int i) (rev (us @ [u])) of
                   Some u \<Rightarrow> snd u | None \<Rightarrow> Values r ! i) [0..<length (Values r)]
      = (map (\<lambda>i. case find (\<lambda>u. GetColumnIndex s (fst u) = int i) (rev us) of
                   Some u \<Rightarrow> snd u | None \<Rightarrow> Values r ! i) [0..<length (Values r)])
          [nat (GetColumnIndex s (fst u)) := snd u]"
    using assms by (intro nth_equalityI) (auto simp add: nth_list_update)
  then show ?thesis by (simp add: with_updates_def)
qed

lemma apply_updates_one:
  assumes "length (Values r) = length (Columns s)"
    and "update_error s u = None"
  shows "apply_updates s r [u] = (r\<lparr>Values := (Values r)[nat (GetColumnIndex s (fst u)) := snd u]\<rparr>, None)
     \<and> 0 \<le> GetColumnIndex s (fst u)"
proof -
  obtain colName v where u: "u = (colName, v)" by (cases u)
  from assms(2) u have ne: "GetColumnIndex s colName \<noteq> -1"
    by (auto simp add: update_error_def split: if_splits)
  with GetColumnIndex_range [of s colName]
  have rg: "0 \<le> GetColumnIndex s colName" "GetColumnIndex s colName < int (length (Columns s))"
    by auto
  from assms(2) u ne have va: "ValidateValue v (Columns s ! nat (GetColumnIndex s colName)) = None"
    by (simp add: update_error_def)
  show ?thesis using ne rg va assms(1) u by (simp add: slice_get_def slice_set_def)
qed

lemma apply_updates_good:
  assumes "length (Values r) = length (Columns s)"
    and "\<forall>u \<in> set good. update_error s u = None"
  shows "apply_updates s r good = (with_updates s good r, None)"
  using assms(2)
proof (induction good rule: rev_induct)
  case Nil
  have "map (\<lambda>i. Values r ! i) [0..<length (Values r)] = Values r"
    by (rule map_nth)
  then show ?case by (simp add: with_updates_def)
next
  case (snoc u good)
  then have g: "\<forall>u \<in> set good. update_error s u = None" and ok: "update_error s u = None"
    by simp_all
  from snoc.IH [OF g] have ih: "apply_updates s r good = (with_updates s good r, None)" .
  have len: "length (Values (with_updates s good r)) = length (Columns s)"
    using assms(1) by (simp add: with_updates_length)
  from apply_updates_prefix [OF assms(1) g, of "[u]"] ih
  have "apply_updates s r (good @ [u]) = apply_updates s (with_updates s good r) [u]"
    by simp
  also from apply_updates_one [OF len ok]
  have "\<dots> = (with_updates s (good @ [u]) r, None)"
    by (simp add: with_updates_snoc del: apply_updates.simps)
  finally show ?case .
qed

lemma GetColumnIndex_name_aux:
  "column_index_from cols name i \<noteq> -1 \<Longrightarrow> 0 \<le> i \<Longrightarrow>
     Name (cols ! nat (column_index_from cols name i - i)) = name"
proof (induction cols arbitrary: i)
  case Nil
  then show ?case by simp
next
  case (Cons c cols)
  show ?case
  proof (cases "Name c = name")
    case True
    then show ?thesis by simp
  next
    case False
    with Cons.prems have ne: "column_index_from cols name (i + 1) \<noteq> -1" by simp
    from Cons.IH [OF ne] Cons.prems(2)
    have ih: "Name (cols ! nat (column_index_from cols name (i + 1) - (i + 1))) = name" by simp
    from column_index_from_range [of "i + 1" cols name] ne Cons.prems(2)
    have "i + 1 \<le> column_index_from cols name (i + 1)" by auto
    then have "nat (column_index_from cols name (i + 1) - i)
        = Suc (nat (column_index_from cols name (i + 1) - (i + 1)))" by simp
    with ih False show ?thesis by simp
  qed
qed

lemma GetColumnIndex_name:
  "GetColumnIndex s name \<noteq> -1 \<Longrightarrow> Name (Columns s ! nat (GetColumnIndex s name)) = name"
  using GetColumnIndex_name_aux [of "Columns s" name 0] by (simp add: GetColumnIndex_def)

lemma with_updates_untouched:
  assumes "i < length (Values r)"
    and "\<forall>u \<in> set us. GetColumnIndex s (fst u) \<noteq> int i"
  shows "Values (with_updates s us r) ! i = Values r ! i"
proof -
  from assms(2) have "find (\<lambda>u. GetColumnIndex s (fst u) = int i) (rev us) = None"
    by (force simp add: find_None_iff)
  with assms(1) show ?thesis by (simp add: with_updates_def)
qed

lemma with_updates_written:
  assumes "length (Values r) = length (Columns s)"
    and "distinct (map fst us)"
    and "u \<in> set us"
    and "update_error s u = None"
  shows "Values (with_updates s us r) ! nat (GetColumnIndex s (fst u)) = snd u"
proof -
  let ?i = "nat (GetColumnIndex s (fst u))"
  from assms(4) have ne: "GetColumnIndex s (fst u) \<noteq> -1"
    by (auto simp add: update_error_def split: if_splits)
  with GetColumnIndex_range [of s "fst u"]
  have rg: "0 \<le> GetColumnIndex s (fst u)" "GetColumnIndex s (fst u) < int (length (Columns s))"
    by auto
  then have i: "?i < length (Values r)" "int ?i = GetColumnIndex s (fst u)"
    using assms(1) by auto
  from assms(3) i(2) have "\<exists>x. x \<in> set (rev us) \<and> GetColumnIndex s (fst x) = int ?i"
    by (intro exI [of _ u]) simp
  then have "find (\<lambda>x. GetColumnIndex s (fst x) = int ?i) (rev us) \<noteq> None"
    unfolding find_None_iff by blast
  then obtain x where x: "find (\<lambda>x. GetColumnIndex s (fst x) = int ?i) (rev us) = Some x"
    by auto
  then obtain j where j: "j < length (rev us)" "x = rev us ! j"
      "GetColumnIndex s (fst x) = int ?i"
    unfolding find_Some_iff by auto
  from j(1,2) have "x \<in> set (rev us)" by (simp only: nth_mem)
  then have xin: "x \<in> set us" by simp
  from j(3) i(2) have xi: "GetColumnIndex s (fst x) = GetColumnIndex s (fst u)" by simp
  from xi ne have nex: "GetColumnIndex s (fst x) \<noteq> -1" by metis
  have "fst x = Name (Columns s ! nat (GetColumnIndex s (fst x)))"
    by (rule GetColumnIndex_name [OF nex, symmetric])
  also have "\<dots> = Name (Columns s ! nat (GetColumnIndex s (fst u)))"
    by (simp only: xi)
  also have "\<dots> = fst u"
    by (rule GetColumnIndex_name [OF ne])
  finally have "fst x = fst u" .
  moreover from assms(2) have "inj_on fst (set us)" by (simp add: distinct_map)
  ultimately have "x = u" using xin assms(3) by (simp only: inj_on_def)
  with x i(1) show ?thesis by (simp add: with_updates_def)
qed


lemma row_matches_Some: "row_matches (Some f) = f"
  by (simp add: fun_eq_iff row_matches_def)

lemma update_loop_good:
  assumes "\<forall>r \<in> set rows. length (Values r) = length (Columns s)"
    and "\<forall>u \<in> set updates. update_error s u = None"
  shows "update_loop s c updates rows n =
     (map (\<lambda>r. if row_matches c r then with_updates s updates r else r) rows,
      n + length (filter (row_matches c) rows), None)"
  using assms(1)
proof (induction rows arbitrary: n)
  case Nil
  then show ?case by simp
next
  case (Cons r rows)
  then have len: "length (Values r) = length (Columns s)"
    and rest: "\<forall>r \<in> set rows. length (Values r) = length (Columns s)"
    by simp_all
  from apply_updates_good [OF len assms(2)] Cons.IH [OF rest]
  show ?case by simp
qed

lemma UpdateRows_good:
  assumes "\<forall>r \<in> set (Rows t). length (Values r) = length (Columns (Schema t))"
    and "\<forall>u \<in> set updates. update_error (Schema t) u = None"
  shows "UpdateRows t c updates =
     (t\<lparr>Rows := map (\<lambda>r. if row_matches c r then with_updates (Schema t) updates r else r) (Rows t)\<rparr>,
      length (filter (row_matches c) (Rows t)), None)"
  using update_loop_good [OF assms, of c 0] by (simp add: UpdateRows_def)

text \<open>
  C1, as the code has it. The claim says that a failing \<open>UpdateRows\<close> leaves every row
  as it was. With the update set \<open>{a: 5, b: 'x'}\<close> on integer columns \<open>a\<close> and \<open>b\<close>,
  visited in this order, the first row has \<open>a\<close> overwritten before \<open>b\<close> is refused.
\<close>

theorem UpdateRows_partial_counterexample:
  "UpdateRows
     \<lparr>Schema = schema_of ''t''
        [\<lparr>Name = ''a'', DataType = TypeInteger, Size = 0, PrimaryKey = False, Unique = False, NotNull = False\<rparr>,
         \<lparr>Name = ''b'', DataType = TypeInteger, Size = 0, PrimaryKey = False, Unique = False, NotNull = False\<rparr>],
       Rows = [\<lparr>Values = [VInt 1, VInt 2]\<rparr>]\<rparr>
     None [(''a'', VInt 5), (''b'', VText ''x'')]
   = (\<lparr>Schema = schema_of ''t''
        [\<lparr>Name = ''a'', DataType = TypeInteger, Size = 0, PrimaryKey = False, Unique = False, NotNull = False\<rparr>,
         \<lparr>Name = ''b'', DataType = TypeInteger, Size = 0, PrimaryKey = False, Unique = False, NotNull = False\<rparr>],
       Rows = [\<lparr>Values = [VInt 5, VInt 2]\<rparr>]\<rparr>, 0, Some TypeMismatch)"
  by (simp add: UpdateRows_def schema_of_fields GetColumnIndex_def slice_get_def slice_set_def row_matches_def)

text \<open>
  C1, amended. \<open>UpdateRows\<close> validates each proposed value just before writing it. When
  the updates visited before the first invalid one are \<open>good\<close>, and some row matches,
  the call fails with that update's error and count 0; every row but the first matching
  one is unchanged, and the first matching row has received exactly the updates in
  \<open>good\<close>: it keeps its length, a cell whose column no entry of \<open>good\<close> names keeps its
  value, and the cell of the column that an entry of \<open>good\<close> names holds that entry's
  value (so the table is unchanged when the invalid update is visited first).
\<close>

theorem UpdateRows_failure:
  assumes "Rows t = pre @ r # post"
    and "\<forall>x \<in> set pre. \<not> row_matches c x"
    and "row_matches c r"
    and "length (Values r) = length (Columns (Schema t))"
    and "updates = good @ bad # rest"
    and "\<forall>u \<in> set good. update_error (Schema t) u = None"
    and "update_error (Schema t) bad = Some e"
  shows "UpdateRows t c updates =
       (t\<lparr>Rows := pre @ with_updates (Schema t) good r # post\<rparr>, 0, Some e)
     \<and> length (Values (with_updates (Schema t) good r)) = length (Values r)
     \<and> (\<forall>i < length (Values r).
          (\<forall>u \<in> set good. GetColumnIndex (Schema t) (fst u) \<noteq> int i) \<longrightarrow>
            Values (with_updates (Schema t) good r) ! i = Values r ! i)
     \<and> (distinct (map fst good) \<longrightarrow>
          (\<forall>u \<in> set good.
             Values (with_updates (Schema t) good r) ! nat (GetColumnIndex (Schema t) (fst u)) = snd u))"
proof -
  let ?s = "Schema t"
  let ?r = "with_updates ?s good r"
  from apply_updates_good [OF assms(4) assms(6)]
  have a: "apply_updates ?s r good = (?r, None)" .
  from apply_updates_prefix [OF assms(4) assms(6), of "bad # rest"] a
  have b: "apply_updates ?s r (good @ bad # rest) = apply_updates ?s ?r (bad # rest)"
    by simp
  from b apply_updates_bad [OF assms(7)]
  have c: "apply_updates ?s r updates = (?r, Some e)"
    by (simp add: assms(5))
  have "update_loop ?s c updates (r # post) 0 = (?r # post, 0, Some e)"
    using assms(3) c by simp
  with update_loop_skip [OF assms(2), of ?s updates "r # post" 0]
  have "update_loop ?s c updates (Rows t) 0 = (pre @ ?r # post, 0, Some e)"
    by (simp add: assms(1))
  then have 1: "UpdateRows t c updates = (t\<lparr>Rows := pre @ ?r # post\<rparr>, 0, Some e)"
    by (simp add: UpdateRows_def)
  have 2: "length (Values ?r) = length (Values r)"
    by (rule with_updates_length)
  have 3: "\<forall>i < length (Values r).
      (\<forall>u \<in> set good. GetColumnIndex ?s (fst u) \<noteq> int i) \<longrightarrow> Values ?r ! i = Values r ! i"
    using with_updates_untouched by blast
  have 4: "distinct (map fst good) \<longrightarrow>
      (\<forall>u \<in> set good. Values ?r ! nat (GetColumnIndex ?s (fst u)) = snd u)"
    using with_updates_written [OF assms(4)] assms(6) by blast
  from 1 2 3 4 show ?thesis by (intro conjI)
qed

theorem UpdateRows_failure_witness:
  "UpdateRows
     \<lparr>Schema = users_schema,
      Rows = [\<lparr>Values = [VInt 1, VText ''x'']\<rparr>, \<lparr>Values = [VInt 2, VText ''y'']\<rparr>,
              \<lparr>Values = [VInt 3, VText ''z'']\<rparr>]\<rparr>
     (Some (\<lambda>row. 1 < length (Values row) \<and> Values row ! 1 \<noteq> VText ''x''))
     [(''id'', VInt 7), (''v'', VInt 8), (''w'', VNil)]
   = (\<lparr>Schema = users_schema,
       Rows = [\<lparr>Values = [VInt 1, VText ''x'']\<rparr>, \<lparr>Values = [VInt 7, VText ''y'']\<rparr>,
               \<lparr>Values = [VInt 3, VText ''z'']\<rparr>]\<rparr>, 0, Some TypeMismatch)"
  using UpdateRows_failure
    [of "\<lparr>Schema = users_schema,
      Rows = [\<lparr>Values = [VInt 1, VText ''x'']\<rparr>, \<lparr>Values = [VInt 2, VText ''y'']\<rparr>,
              \<lparr>Values = [VInt 3, VText ''z'']\<rparr>]\<rparr>"
      "[\<lparr>Values = [VInt 1, VText ''x'']\<rparr>]" "\<lparr>Values = [VInt 2, VText ''y'']\<rparr>"
      "[\<lparr>Values = [VInt 3, VText ''z'']\<rparr>]"
      "Some (\<lambda>row. 1 < length (Values row) \<and> Values row ! 1 \<noteq> VText ''x'')"
      "[(''id'', VInt 7), (''v'', VInt 8), (''w'', VNil)]"
      "[(''id'', VInt 7)]" "(''v'', VInt 8)" "[(''w'', VNil)]" TypeMismatch]
  by (simp add: example_simps update_error_def with_updates_def)

section \<open>Creating a table\<close>

text \<open>
  C9. When persisting fails, \<open>CreateTable\<close> takes the table out of the table map again,
  but the indexes it created stay in the index manager: after a failed
  \<^verbatim>\<open>CREATE TABLE t(id INTEGER PRIMARY KEY)\<close> the table does not exist, the index on
  \<open>t.id\<close> does, and creating the table again fails with \<open>AlreadyExists\<close> even on a
  directory that can be written.
\<close>

theorem CreateTable_failed_save_keeps_index:
  "(case CreateTable \<lparr>tables = [], indexMgr = NewManager\<rparr> \<lparr>files = [], refuses = (\<lambda>path. True)\<rparr>
           (schema_of ''t'' [column ''id'' TypeInteger 0 True False False]) of
      (s, fs, err) \<Rightarrow>
        err = Some IOError \<and> \<not> TableExists s ''t'' \<and> HasIndex (indexMgr s) ''t'' ''id''
        \<and> snd (snd (CreateTable s \<lparr>files = [], refuses = (\<lambda>path. False)\<rparr>
              (schema_of ''t'' [column ''id'' TypeInteger 0 True False False]))) = Some AlreadyExists)"
  by (simp add: CreateTable_def schema_of_fields column_def CreateIndex_def NewManager_def
      saveTable_def getTableFilePath_def TableExists_def HasIndex_def Let_def)

section \<open>Saving and loading\<close>

lemma saveTable_loadTable:
  assumes "saveTable fs table = (fs', None)"
  shows "loadTable fs' (TableName (Schema table)) = Inr table"
  using assms
  by (auto simp add: saveTable_def loadTable_def Let_def update_conv' split: if_splits)

lemma tbl_name:
  "has_tbl_ext name \<Longrightarrow> getTableFilePath (take (length name - 4) name) = name"
  by (simp add: has_tbl_ext_def getTableFilePath_def) (metis append_take_drop_id)

lemma tbl_ext_path: "has_tbl_ext (getTableFilePath tableName)"
  by (simp add: has_tbl_ext_def getTableFilePath_def)

lemma tbl_base_path:
  "take (length (getTableFilePath tableName) - 4) (getTableFilePath tableName) = tableName"
  by (simp add: getTableFilePath_def)

lemma load_each_indexMgr:
  "load_each s fs names = (s', err) \<Longrightarrow> indexMgr s' = indexMgr s"
  by (induction names arbitrary: s) (auto simp add: Let_def split: if_splits sum.splits)

lemma load_each_tables:
  assumes "load_each s fs names = (s', None)"
    and "getTableFilePath tableName \<in> set names"
  shows "GetTable s' tableName = loadTable fs tableName"
  using assms
proof (induction names arbitrary: s)
  case Nil
  then show ?case by simp
next
  case (Cons name names)
  show ?case
  proof (cases "has_tbl_ext name")
    case False
    with Cons.prems tbl_ext_path [of tableName] have "getTableFilePath tableName \<in> set names"
      by auto
    with Cons.IH [of s] Cons.prems(1) False show ?thesis by simp
  next
    case True
    let ?tn = "take (length name - 4) name"
    from Cons.prems(1) True obtain table where ld: "loadTable fs ?tn = Inr table"
      and rest: "load_each (s\<lparr>tables := AList.update ?tn table (tables s)\<rparr>) fs names = (s', None)"
      by (auto simp add: Let_def split: sum.splits)
    show ?thesis
    proof (cases "getTableFilePath tableName \<in> set names")
      case True
      from Cons.IH [OF rest True] show ?thesis .
    next
      case False
      with Cons.prems(2) have n: "name = getTableFilePath tableName" by simp
      then have tn: "?tn = tableName" by (simp add: tbl_base_path)
      have keep: "load_each s0 fs names = (s1, None) \<Longrightarrow> map_of (tables s0) tableName = Some table
          \<Longrightarrow> map_of (tables s1) tableName = Some table" for s0 s1
      proof (induction names arbitrary: s0)
        case Nil
        then show ?case by simp
      next
        case (Cons m ms)
        show ?case
        proof (cases "has_tbl_ext m")
          case False
          with Cons show ?thesis by simp
        next
          case True
          let ?b = "take (length m - 4) m"
          from Cons.prems(1) True obtain t2 where l2: "loadTable fs ?b = Inr t2"
            and r2: "load_each (s0\<lparr>tables := AList.update ?b t2 (tables s0)\<rparr>) fs ms = (s1, None)"
            by (auto simp add: Let_def split: sum.splits)
          have "map_of (tables (s0\<lparr>tables := AList.update ?b t2 (tables s0)\<rparr>)) tableName = Some table"
          proof (cases "?b = tableName")
            case True
            with l2 ld tn show ?thesis by (simp add: update_conv')
          next
            case False
            with Cons.prems(2) show ?thesis by (simp add: update_conv')
          qed
          from Cons.IH [OF r2 this] show ?thesis .
        qed
      qed
      have "map_of (tables (s\<lparr>tables := AList.update ?tn table (tables s)\<rparr>)) tableName = Some table"
        using tn by (simp add: update_conv')
      from keep [OF rest this] ld tn show ?thesis by (simp add: GetTable_def)
    qed
  qed
qed

text \<open>
  C6, as the code has it. The claim says that startup rebuilds the indexes of the
  loaded tables. \<open>loadTables\<close> only fills the table map: after saving a table with one
  row and starting up on the directory, the table is back, and the index manager has
  no index on its primary key, so that \<open>Search\<close> reports not found for the row's key.
\<close>

theorem startup_leaves_indexes_empty_counterexample:
  "(case saveTable \<lparr>files = [], refuses = (\<lambda>path. False)\<rparr>
           \<lparr>Schema = users_schema, Rows = [\<lparr>Values = [VInt 1, VText ''x'']\<rparr>]\<rparr> of
      (fs, err) \<Rightarrow>
        err = None
        \<and> (case NewStorage fs of
             Inl e \<Rightarrow> False
           | Inr s \<Rightarrow>
               GetTable s ''t'' = Inr \<lparr>Schema = users_schema, Rows = [\<lparr>Values = [VInt 1, VText ''x'']\<rparr>]\<rparr>
               \<and> \<not> HasIndex (indexMgr s) ''t'' ''id''
               \<and> Manager_Search (indexMgr s) ''t'' ''id'' (VInt 1) = Some (-1, False)))"
  by (simp add: saveTable_def NewStorage_def loadTables_def loadTable_def getTableFilePath_def
      has_tbl_ext_def users_schema_def schema_of_fields Let_def GetTable_def HasIndex_def
      Manager_Search_def NewManager_def)

text \<open>
  C6, amended. Saving a table and loading it back, by \<open>loadTable\<close> or by a startup that
  succeeds on the directory, yields a table with the same schema and the same row
  sequence; after the startup the index manager holds no index: \<open>HasIndex\<close> is false
  and \<open>Search\<close> reports not found, for every table, column and key.
\<close>

theorem save_then_startup:
  assumes "saveTable fs table = (fs', None)" and "NewStorage fs' = Inr s"
  shows "GetTable s (TableName (Schema table)) = Inr table
    \<and> loadTable fs' (TableName (Schema table)) = Inr table
    \<and> (\<forall>tableName columnName key.
          \<not> HasIndex (indexMgr s) tableName columnName
          \<and> Manager_Search (indexMgr s) tableName columnName key = Some (-1, False))"
proof -
  let ?tn = "TableName (Schema table)"
  from assms(2) have le: "load_each \<lparr>tables = [], indexMgr = NewManager\<rparr> fs' (map fst (files fs')) = (s, None)"
    by (auto simp add: NewStorage_def loadTables_def split: prod.splits option.splits)
  from assms(1) have "getTableFilePath ?tn \<in> set (map fst (files fs'))"
    by (auto simp add: saveTable_def Let_def dom_update split: if_splits)
  from load_each_tables [OF le this] saveTable_loadTable [OF assms(1)]
  have a: "GetTable s ?tn = Inr table" by simp
  from load_each_indexMgr [OF le] have "indexes (indexMgr s) = Map.empty"
    by (simp add: NewManager_def)
  then have "\<not> HasIndex (indexMgr s) tn cn \<and> Manager_Search (indexMgr s) tn cn key = Some (-1, False)"
    for tn cn key
    by (simp add: HasIndex_def Manager_Search_def)
  with a saveTable_loadTable [OF assms(1)] show ?thesis by blast
qed

theorem save_then_startup_witness:
  "GetTable
     \<lparr>tables = [(''t'', \<lparr>Schema = users_schema, Rows = [\<lparr>Values = [VInt 1, VText ''x'']\<rparr>]\<rparr>)],
      indexMgr = NewManager\<rparr> ''t''
     = Inr \<lparr>Schema = users_schema, Rows = [\<lparr>Values = [VInt 1, VText ''x'']\<rparr>]\<rparr>
   \<and> Manager_Search NewManager ''t'' ''id'' (VInt 1) = Some (-1, False)"
  using save_then_startup
    [of "\<lparr>files = [], refuses = (\<lambda>path. False)\<rparr>"
      "\<lparr>Schema = users_schema, Rows = [\<lparr>Values = [VInt 1, VText ''x'']\<rparr>]\<rparr>"
      "\<lparr>files = [(''t.tbl'', [GobSchema users_schema, GobRows [\<lparr>Values = [VInt 1, VText ''x'']\<rparr>]])],
        refuses = (\<lambda>path. False)\<rparr>"
      "\<lparr>tables = [(''t'', \<lparr>Schema = users_schema, Rows = [\<lparr>Values = [VInt 1, VText ''x'']\<rparr>]\<rparr>)],
        indexMgr = NewManager\<rparr>"]
  by (simp add: saveTable_def NewStorage_def loadTables_def loadTable_def getTableFilePath_def
      has_tbl_ext_def users_schema_def schema_of_fields Let_def)

section \<open>Predicates in Update and Delete\<close>

text \<open>
  C7, as the code has it. The claim says that an Update or Delete whose predicate fails
  on a row returns that error. On \<^verbatim>\<open>DELETE FROM t WHERE nosuch = 1\<close> the predicate
  fails with \<open>NotFound\<close> on the only row, and the statement completes with
  \<^verbatim>\<open>0 row(s) deleted\<close>.
\<close>

theorem where_error_swallowed_counterexample:
  "evaluateCondition (BinaryExpr (Identifier ''nosuch'') ''='' (Literal (VInt 1)))
       \<lparr>Values = [VInt 1, VText ''x'']\<rparr> users_schema = Inl NotFound
   \<and> snd (snd (executeDelete
        \<lparr>tables = [(''t'', \<lparr>Schema = users_schema, Rows = [\<lparr>Values = [VInt 1, VText ''x'']\<rparr>]\<rparr>)],
         indexMgr = NewManager\<rparr>
        \<lparr>files = [], refuses = (\<lambda>path. False)\<rparr>
        (DeleteStmt ''t'' (Some (BinaryExpr (Identifier ''nosuch'') ''='' (Literal (VInt 1)))))))
      = Inr (RowsDeleted 0)"
  by (simp add: executeDelete_def GetTable_def DeleteRows_def where_closure_def SaveAllTables_def
      saveTable_def users_schema_def schema_of_fields GetColumnIndex_def column_def Let_def)

lemma where_closure_Some:
  "where_closure (Some w) schema = Some (\<lambda>row. evaluateCondition w row schema = Inr True)"
  by (auto simp add: where_closure_def fun_eq_iff split: sum.splits)

text \<open>
  C7, amended. For an Update or Delete on an existing table (whose rows have the
  schema's arity), a row on which the evaluation of the predicate fails is treated as
  not matching, and the error is not returned. Delete removes exactly the rows on which
  the predicate evaluates to true and returns their count. Update calls \<open>UpdateRows\<close>
  with the condition "the predicate evaluates to true"; when the \<^verbatim>\<open>SET\<close> expressions
  evaluate to \<open>updates\<close> and each of these is valid for the schema, it writes \<open>updates\<close>
  into exactly the rows on which the predicate evaluates to true, leaves every other row
  as it was, and returns the number of rows written. The errors that are forwarded are
  those of the table lookup, of the \<^verbatim>\<open>SET\<close> expressions, of \<open>UpdateRows\<close> and of
  persisting.
\<close>

theorem where_errors_as_no_match:
  assumes "GetTable s name = Inr table"
    and "\<forall>r \<in> set (Rows table). length (Values r) = length (Columns (Schema table))"
  shows "executeDelete s fs (DeleteStmt name (Some w)) =
      (let s' = s\<lparr>tables := AList.update name
                   (table\<lparr>Rows := filter (\<lambda>r. evaluateCondition w r (Schema table) \<noteq> Inr True)
                                     (Rows table)\<rparr>) (tables s)\<rparr>
       in case SaveAllTables s' fs of
            (fs', Some e) \<Rightarrow> (s', fs', Inl e)
          | (fs', None) \<Rightarrow>
              (s', fs', Inr (RowsDeleted (length
                 (filter (\<lambda>r. evaluateCondition w r (Schema table) = Inr True) (Rows table))))))
    \<and> executeUpdate s fs (UpdateStmt name assignments (Some w)) =
      (case evaluate_set assignments of
         Inl e \<Rightarrow> (s, fs, Inl e)
       | Inr updates \<Rightarrow>
           (case UpdateRows table
                   (Some (\<lambda>r. evaluateCondition w r (Schema table) = Inr True)) updates of
              (table', count, err) \<Rightarrow>
                (let s' = s\<lparr>tables := AList.update name table' (tables s)\<rparr> in
                 case err of
                   Some e \<Rightarrow> (s', fs, Inl e)
                 | None \<Rightarrow>
                     (case SaveAllTables s' fs of
                        (fs', Some e) \<Rightarrow> (s', fs', Inl e)
                      | (fs', None) \<Rightarrow> (s', fs', Inr (RowsUpdated count))))))
    \<and> (evaluate_set assignments = Inr updates
         \<and> (\<forall>u \<in> set updates. update_error (Schema table) u = None) \<longrightarrow>
       executeUpdate s fs (UpdateStmt name assignments (Some w)) =
        (let s' = s\<lparr>tables := AList.update name
                     (table\<lparr>Rows := map (\<lambda>r. if evaluateCondition w r (Schema table) = Inr True
                                              then with_updates (Schema table) updates r else r)
                                       (Rows table)\<rparr>) (tables s)\<rparr>
         in case SaveAllTables s' fs of
              (fs', Some e) \<Rightarrow> (s', fs', Inl e)
            | (fs', None) \<Rightarrow>
                (s', fs', Inr (RowsUpdated (length
                   (filter (\<lambda>r. evaluateCondition w r (Schema table) = Inr True) (Rows table)))))))"
proof (intro conjI impI)
  show "executeDelete s fs (DeleteStmt name (Some w)) =
      (let s' = s\<lparr>tables := AList.update name
                   (table\<lparr>Rows := filter (\<lambda>r. evaluateCondition w r (Schema table) \<noteq> Inr True)
                                     (Rows table)\<rparr>) (tables s)\<rparr>
       in case SaveAllTables s' fs of
            (fs', Some e) \<Rightarrow> (s', fs', Inl e)
          | (fs', None) \<Rightarrow>
              (s', fs', Inr (RowsDeleted (length
                 (filter (\<lambda>r. evaluateCondition w r (Schema table) = Inr True) (Rows table))))))"
    using assms(1) by (simp add: executeDelete_def where_closure_Some DeleteRows_def)
next
  show "executeUpdate s fs (UpdateStmt name assignments (Some w)) =
      (case evaluate_set assignments of
         Inl e \<Rightarrow> (s, fs, Inl e)
       | Inr updates \<Rightarrow>
           (case UpdateRows table
                   (Some (\<lambda>r. evaluateCondition w r (Schema table) = Inr True)) updates of
              (table', count, err) \<Rightarrow>
                (let s' = s\<lparr>tables := AList.update name table' (tables s)\<rparr> in
                 case err of
                   Some e \<Rightarrow> (s', fs, Inl e)
                 | None \<Rightarrow>
                     (case SaveAllTables s' fs of
                        (fs', Some e) \<Rightarrow> (s', fs', Inl e)
                      | (fs', None) \<Rightarrow> (s', fs', Inr (RowsUpdated count))))))"
    using assms(1) by (simp add: executeUpdate_def where_closure_Some cong: sum.case_cong)
next
  assume a: "evaluate_set assignments = Inr updates
      \<and> (\<forall>u \<in> set updates. update_error (Schema table) u = None)"
  then have ok: "\<forall>u \<in> set updates. update_error (Schema table) u = None" by simp
  from a assms(1) UpdateRows_good [OF assms(2) ok,
      of "Some (\<lambda>r. evaluateCondition w r (Schema table) = Inr True)"]
  show "executeUpdate s fs (UpdateStmt name assignments (Some w)) =
        (let s' = s\<lparr>tables := AList.update name
                     (table\<lparr>Rows := map (\<lambda>r. if evaluateCondition w r (Schema table) = Inr True
                                              then with_updates (Schema table) updates r else r)
                                       (Rows table)\<rparr>) (tables s)\<rparr>
         in case SaveAllTables s' fs of
              (fs', Some e) \<Rightarrow> (s', fs', Inl e)
            | (fs', None) \<Rightarrow>
                (s', fs', Inr (RowsUpdated (length
                   (filter (\<lambda>r. evaluateCondition w r (Schema table) = Inr True) (Rows table))))))"
    by (simp add: executeUpdate_def where_closure_Some row_matches_Some)
qed


theorem where_errors_as_no_match_witness:
  "evaluateCondition (BinaryExpr (Identifier ''id'') ''='' (Literal (VInt 2)))
       \<lparr>Values = [VInt 1, VText ''x'']\<rparr> users_schema = Inr False
   \<and> evaluateCondition (BinaryExpr (Identifier ''id'') ''='' (Literal (VInt 2)))
       \<lparr>Values = [VInt 2, VText ''y'']\<rparr> users_schema = Inr True
   \<and> executeUpdate
        \<lparr>tables = [(''t'', \<lparr>Schema = users_schema,
             Rows = [\<lparr>Values = [VInt 1, VText ''x'']\<rparr>, \<lparr>Values = [VInt 2, VText ''y'']\<rparr>]\<rparr>)],
         indexMgr = NewManager\<rparr>
        \<lparr>files = [], refuses = (\<lambda>path. False)\<rparr>
        (UpdateStmt ''t'' [(''v'', Literal (VText ''z''))]
           (Some (BinaryExpr (Identifier ''id'') ''='' (Literal (VInt 2)))))
      = (\<lparr>tables = [(''t'', \<lparr>Schema = users_schema,
             Rows = [\<lparr>Values = [VInt 1, VText ''x'']\<rparr>, \<lparr>Values = [VInt 2, VText ''z'']\<rparr>]\<rparr>)],
         indexMgr = NewManager\<rparr>,
         \<lparr>files = [(''t.tbl'', [GobSchema users_schema,
             GobRows [\<lparr>Values = [VInt 1, VText ''x'']\<rparr>, \<lparr>Values = [VInt 2, VText ''z'']\<rparr>]])],
          refuses = (\<lambda>path. False)\<rparr>,
         Inr (RowsUpdated 1))
   \<and> evaluateCondition (BinaryExpr (Identifier ''id'') ''<'' (Literal (VText ''a'')))
       \<lparr>Values = [VInt 1, VText ''x'']\<rparr> users_schema = Inl IncomparableTypes
   \<and> evaluateCondition (BinaryExpr (Identifier ''id'') ''<'' (Literal (VText ''a'')))
       \<lparr>Values = [VInt 2, VText ''y'']\<rparr> users_schema = Inl IncomparableTypes
   \<and> executeUpdate
        \<lparr>tables = [(''t'', \<lparr>Schema = users_schema,
             Rows = [\<lparr>Values = [VInt 1, VText ''x'']\<rparr>, \<lparr>Values = [VInt 2, VText ''y'']\<rparr>]\<rparr>)],
         indexMgr = NewManager\<rparr>
        \<lparr>files = [], refuses = (\<lambda>path. False)\<rparr>
        (UpdateStmt ''t'' [(''v'', Literal (VText ''z''))]
           (Some (BinaryExpr (Identifier ''id'') ''<'' (Literal (VText ''a'')))))
      = (\<lparr>tables = [(''t'', \<lparr>Schema = users_schema,
             Rows = [\<lparr>Values = [VInt 1, VText ''x'']\<rparr>, \<lparr>Values = [VInt 2, VText ''y'']\<rparr>]\<rparr>)],
         indexMgr = NewManager\<rparr>,
         \<lparr>files = [(''t.tbl'', [GobSchema users_schema,
             GobRows [\<lparr>Values = [VInt 1, VText ''x'']\<rparr>, \<lparr>Values = [VInt 2, VText ''y'']\<rparr>]])],
          refuses = (\<lambda>path. False)\<rparr>,
         Inr (RowsUpdated 0))
   \<and> executeDelete
        \<lparr>tables = [(''t'', \<lparr>Schema = users_schema,
             Rows = [\<lparr>Values = [VInt 1, VText ''x'']\<rparr>, \<lparr>Values = [VInt 2, VText ''y'']\<rparr>]\<rparr>)],
         indexMgr = NewManager\<rparr>
        \<lparr>files = [], refuses = (\<lambda>path. False)\<rparr>
        (DeleteStmt ''t'' (Some (BinaryExpr (Identifier ''id'') ''='' (Literal (VInt 2)))))
      = (\<lparr>tables = [(''t'', \<lparr>Schema = users_schema, Rows = [\<lparr>Values = [VInt 1, VText ''x'']\<rparr>]\<rparr>)],
         indexMgr = NewManager\<rparr>,
         \<lparr>files = [(''t.tbl'', [GobSchema users_schema, GobRows [\<lparr>Values = [VInt 1, VText ''x'']\<rparr>]])],
          refuses = (\<lambda>path. False)\<rparr>,
         Inr (RowsDeleted 1))"
  using
    where_errors_as_no_match
      [of "\<lparr>tables = [(''t'', \<lparr>Schema = users_schema,
             Rows = [\<lparr>Values = [VInt 1, VText ''x'']\<rparr>, \<lparr>Values = [VInt 2, VText ''y'']\<rparr>]\<rparr>)],
         indexMgr = NewManager\<rparr>" "''t''"
        "\<lparr>Schema = users_schema,
          Rows = [\<lparr>Values = [VInt 1, VText ''x'']\<rparr>, \<lparr>Values = [VInt 2, VText ''y'']\<rparr>]\<rparr>"
        "\<lparr>files = [], refuses = (\<lambda>path. False)\<rparr>"
        "BinaryExpr (Identifier ''id'') ''='' (Literal (VInt 2))"
        "[(''v'', Literal (VText ''z''))]" "[(''v'', VText ''z'')]"]
    where_errors_as_no_match
      [of "\<lparr>tables = [(''t'', \<lparr>Schema = users_schema,
             Rows = [\<lparr>Values = [VInt 1, VText ''x'']\<rparr>, \<lparr>Values = [VInt 2, VText ''y'']\<rparr>]\<rparr>)],
         indexMgr = NewManager\<rparr>" "''t''"
        "\<lparr>Schema = users_schema,
          Rows = [\<lparr>Values = [VInt 1, VText ''x'']\<rparr>, \<lparr>Values = [VInt 2, VText ''y'']\<rparr>]\<rparr>"
        "\<lparr>files = [], refuses = (\<lambda>path. False)\<rparr>"
        "BinaryExpr (Identifier ''id'') ''<'' (Literal (VText ''a''))"
        "[(''v'', Literal (VText ''z''))]" "[(''v'', VText ''z'')]"]
  by (simp add: GetTable_def SaveAllTables_def saveTable_def users_schema_def schema_of_fields
      GetColumnIndex_def column_def Let_def slice_get_def compareValues_def getTableFilePath_def
      update_error_def with_updates_def UpdateRows_def row_matches_def slice_set_def)

section \<open>The shape of the B-tree\<close>

lemma well_shaped_leaves:
  "well_shaped lo h n \<Longrightarrow> leaves_at_depth h n"
  by (induction lo h n rule: well_shaped.induct) (auto split: nat.splits if_splits)

lemma well_shaped_keys_between:
  "well_shaped lo h n \<Longrightarrow> lo \<le> length (keys n) \<Longrightarrow> keys_between lo (2 * btreeOrder - 1) n"
  by (induction lo h n rule: well_shaped.induct) (auto split: nat.splits if_splits)

lemma well_shaped_mono:
  "well_shaped lo h n \<Longrightarrow> lo' \<le> lo \<Longrightarrow> well_shaped lo' h n"
  by (induction lo h n rule: well_shaped.induct) (fastforce split: nat.splits if_splits)

lemma searchNode_total:
  "well_shaped lo h n \<Longrightarrow> \<exists>r. searchNode n key = Some r"
proof (induction lo h n rule: well_shaped.induct)
  case (1 lo h ks vs cs leaf)
  let ?i = "scan_up key ks"
  have i: "?i \<le> length ks"
    unfolding scan_up_def by (rule length_takeWhile_le)
  show ?case
  proof (cases leaf)
    case True
    with "1.prems" i show ?thesis by (auto simp add: Let_def)
  next
    case False
    with "1.prems" obtain h' where h: "h = Suc h'" and len: "length cs = Suc (length ks)"
      and ch: "\<forall>c \<in> set cs. lo \<le> length (keys c) \<and> well_shaped lo h' c"
      and vs: "length vs = length ks"
      by (auto split: nat.splits)
    from i len have "cs ! ?i \<in> set cs" by simp
    with "1.IH" [OF False h, of "cs ! ?i"] ch have "\<exists>r. searchNode (cs ! ?i) key = Some r"
      by blast
    with False i len vs show ?thesis by (auto simp add: Let_def)
  qed
qed

lemma scan_down_le: "scan_down key ks \<le> length ks"
  unfolding scan_down_def by (metis length_dropWhile_le length_rev)

lemma scan_up_le: "scan_up key ks \<le> length ks"
  unfolding scan_up_def by (rule length_takeWhile_le)

lemma splitChild_shape:
  assumes "well_shaped lo (Suc h) (BTreeNode ks vs cs False)"
    and "i < length cs"
    and "length (keys (cs ! i)) = 2 * btreeOrder - 1"
    and "lo \<le> btreeOrder - 1"
    and "length ks < 2 * btreeOrder - 1"
  shows "\<exists>p'. splitChild (BTreeNode ks vs cs False) i = Some p'
    \<and> well_shaped lo (Suc h) p' \<and> \<not> isLeaf p'
    \<and> length (keys p') = Suc (length ks)
    \<and> length (children p') = Suc (length cs)
    \<and> length (keys (children p' ! i)) = btreeOrder - 1
    \<and> length (keys (children p' ! Suc i)) = btreeOrder - 1"
proof -
  obtain kc vc cc lc where fc: "cs ! i = BTreeNode kc vc cc lc" by (cases "cs ! i")
  from assms(1) have len: "length vs = length ks" "length cs = Suc (length ks)"
    and ch: "\<forall>c \<in> set cs. lo \<le> length (keys c) \<and> well_shaped lo h c"
    by auto
  from assms(2) have "cs ! i \<in> set cs" by simp
  with ch fc have wc: "well_shaped lo h (BTreeNode kc vc cc lc)" by metis
  from assms(3) fc have kc: "length kc = 7" by (simp add: btreeOrder_def)
  from wc kc have vc: "length vc = 7" by simp
  let ?l = "BTreeNode (take 3 kc) (take 3 vc) (if lc then cc else take 4 cc) lc"
  let ?r = "BTreeNode (drop 4 kc) (drop 4 vc) (if lc then [] else drop 4 cc) lc"
  let ?p = "BTreeNode (take i ks @ kc ! 3 # drop i ks) (take i vs @ vc ! 3 # drop i vs)
              (take i cs @ ?l # ?r # drop (Suc i) cs) False"
  have sp: "splitChild (BTreeNode ks vs cs False) i = Some ?p"
    using assms(2) len kc vc wc fc
    by (auto simp add: splitChild_def btreeOrder_def Let_def split: nat.splits)
  have wl: "well_shaped lo h ?l" and wr: "well_shaped lo h ?r"
    using wc kc vc
    by (auto simp add: btreeOrder_def split: nat.splits if_splits dest: in_set_takeD in_set_dropD)
  have lo: "lo \<le> 3" using assms(4) by (simp add: btreeOrder_def)
  have w: "well_shaped lo (Suc h) ?p"
    using len assms(2,5) ch wl wr lo kc
    by (auto simp add: btreeOrder_def dest: in_set_takeD in_set_dropD)
  have n1: "children ?p ! i = ?l"
    using assms(2) by (simp add: nth_append)
  have n2: "children ?p ! Suc i = ?r"
    using assms(2) by (simp add: nth_append)
  show ?thesis
  proof (intro exI conjI)
    show "splitChild (BTreeNode ks vs cs False) i = Some ?p" by (rule sp)
    show "well_shaped lo (Suc h) ?p" by (rule w)
    show "\<not> isLeaf ?p" by simp
    show "length (keys ?p) = Suc (length ks)" using assms(2) len by simp
    show "length (children ?p) = Suc (length cs)" using assms(2) by simp
    show "length (keys (children ?p ! i)) = btreeOrder - 1"
      unfolding n1 using kc by (simp add: btreeOrder_def)
    show "length (keys (children ?p ! Suc i)) = btreeOrder - 1"
      unfolding n2 using kc by (simp add: btreeOrder_def)
  qed
qed

lemma insertNonFull_shape:
  assumes "well_shaped lo h n" and "lo \<le> btreeOrder - 1" and "length (keys n) < 2 * btreeOrder - 1"
  shows "\<exists>n'. insertNonFull n key r = Some n' \<and> well_shaped lo h n'
           \<and> length (keys n) \<le> length (keys n')"
  using assms
proof (induction h arbitrary: n)
  case 0
  obtain ks vs cs leaf where n: "n = BTreeNode ks vs cs leaf" by (cases n)
  with "0.prems" show ?case
    by (auto simp add: btreeOrder_def Let_def split: if_splits)
next
  case (Suc h)
  obtain ks vs cs leaf where n: "n = BTreeNode ks vs cs leaf" by (cases n)
  with Suc.prems have leaf: "\<not> leaf" and len: "length vs = length ks" "length cs = Suc (length ks)"
    and ch: "\<forall>c \<in> set cs. lo \<le> length (keys c) \<and> well_shaped lo h c"
    and nf: "length ks < 2 * btreeOrder - 1"
    by (auto split: if_splits)
  let ?i = "scan_down key ks"
  from scan_down_le [of key ks] len have i: "?i < length cs" by simp
  then have ci: "cs ! ?i \<in> set cs" by simp
  with ch have wc: "well_shaped lo h (cs ! ?i)" and lc: "lo \<le> length (keys (cs ! ?i))" by auto
  show ?case
  proof (cases "2 * btreeOrder - 1 \<le> length (keys (cs ! ?i))")
    case True
    from wc have "length (keys (cs ! ?i)) \<le> 2 * btreeOrder - 1" by (cases "cs ! ?i") simp
    with True have full: "length (keys (cs ! ?i)) = 2 * btreeOrder - 1" by simp
    from Suc.prems(1) n leaf have "well_shaped lo (Suc h) (BTreeNode ks vs cs False)" by simp
    from splitChild_shape [OF this i full Suc.prems(2) nf]
    obtain p' where sp: "splitChild (BTreeNode ks vs cs False) ?i = Some p'"
      and wp: "well_shaped lo (Suc h) p'" and lp: "\<not> isLeaf p'"
      and kp: "length (keys p') = Suc (length ks)"
      and cp: "length (children p') = Suc (length cs)"
      and k1: "length (keys (children p' ! ?i)) = btreeOrder - 1"
      and k2: "length (keys (children p' ! Suc ?i)) = btreeOrder - 1"
      by blast
    obtain ks' vs' cs' where p': "p' = BTreeNode ks' vs' cs' False"
      using lp by (cases p') auto
    let ?j = "if compare key (ks' ! ?i) > 0 then ?i + 1 else ?i"
    from i cp p' have j: "?j < length cs'" by auto
    from k1 k2 p' have kj: "length (keys (cs' ! ?j)) = btreeOrder - 1" by auto
    from wp p' j have wj: "well_shaped lo h (cs' ! ?j)"
      and ch': "\<forall>c \<in> set cs'. lo \<le> length (keys c) \<and> well_shaped lo h c"
      and len': "length vs' = length ks'" "length cs' = Suc (length ks')" "length ks' \<le> 2 * btreeOrder - 1"
      by auto
    from kj have "length (keys (cs' ! ?j)) < 2 * btreeOrder - 1" by (simp add: btreeOrder_def)
    from Suc.IH [OF wj Suc.prems(2) this] obtain c' where
      ins: "insertNonFull (cs' ! ?j) key r = Some c'" and wc': "well_shaped lo h c'"
      and lc': "length (keys (cs' ! ?j)) \<le> length (keys c')"
      by blast
    from lc' kj Suc.prems(2) have lo': "lo \<le> length (keys c')" by simp
    have "well_shaped lo (Suc h) (BTreeNode ks' vs' (cs'[?j := c']) False)"
      using len' ch' wc' lo' by (auto dest: set_update_subset_insert [THEN subsetD])
    moreover have "insertNonFull n key r = Some (BTreeNode ks' vs' (cs'[?j := c']) False)"
      using n leaf i True sp p' j ins by (simp add: Let_def)
    ultimately show ?thesis using n kp p' by auto
  next
    case False
    then have "length (keys (cs ! ?i)) < 2 * btreeOrder - 1" by simp
    from Suc.IH [OF wc Suc.prems(2) this] obtain c' where
      ins: "insertNonFull (cs ! ?i) key r = Some c'" and wc': "well_shaped lo h c'"
      and lc': "length (keys (cs ! ?i)) \<le> length (keys c')"
      by blast
    from lc' lc have lo': "lo \<le> length (keys c')" by simp
    have "well_shaped lo (Suc h) (BTreeNode ks vs (cs[?i := c']) False)"
      using len ch wc' lo' nf by (auto dest: set_update_subset_insert [THEN subsetD])
    moreover have "insertNonFull n key r = Some (BTreeNode ks vs (cs[?i := c']) leaf)"
      using n leaf i False ins by (simp add: Let_def)
    ultimately show ?thesis using n leaf by auto
  qed
qed

lemma deleteNode_shape:
  assumes "well_shaped 0 h n"
  shows "\<exists>n' found. deleteNode n key = Some (n', found) \<and> well_shaped 0 h n'"
  using assms
proof (induction h arbitrary: n)
  case 0
  obtain ks vs cs leaf where n: "n = BTreeNode ks vs cs leaf" by (cases n)
  with "0.prems" scan_up_le [of key ks] show ?case
    by (auto simp add: Let_def split: if_splits)
next
  case (Suc h)
  obtain ks vs cs leaf where n: "n = BTreeNode ks vs cs leaf" by (cases n)
  with Suc.prems have leaf: "\<not> leaf" and len: "length vs = length ks" "length cs = Suc (length ks)"
    and ch: "\<forall>c \<in> set cs. well_shaped 0 h c"
    and nf: "length ks \<le> 2 * btreeOrder - 1"
    by (auto split: if_splits)
  let ?i = "scan_up key ks"
  from scan_up_le [of key ks] len have i: "?i < length cs" by simp
  with ch have "well_shaped 0 h (cs ! ?i)" by simp
  from Suc.IH [OF this] obtain c' found where
    d: "deleteNode (cs ! ?i) key = Some (c', found)" and wc: "well_shaped 0 h c'"
    by blast
  have "well_shaped 0 (Suc h) (BTreeNode ks vs (cs[?i := c']) False)"
    using len ch wc nf by (auto dest: set_update_subset_insert [THEN subsetD])
  with n leaf i d Suc.prems show ?case
    by (auto simp add: Let_def)
qed

lemma Insert_shape:
  assumes "well_shaped lo h (root bt)" and "lo \<le> btreeOrder - 1"
  shows "\<exists>bt' err h'. Insert bt key r = Some (bt', err) \<and> well_shaped lo h' (root bt')"
proof -
  from searchNode_total [OF assms(1), of key] obtain v found where
    s: "searchNode (root bt) key = Some (v, found)"
    by auto
  show ?thesis
  proof (cases found)
    case True
    with s assms(1) show ?thesis by (auto simp add: Insert_def)
  next
    case False
    obtain ks vs cs leaf where rt: "root bt = BTreeNode ks vs cs leaf" by (cases "root bt")
    from assms(1) rt have le: "length ks \<le> 2 * btreeOrder - 1" by simp
    have "\<exists>r0 h0. (if length (keys (root bt)) \<ge> 2 * btreeOrder - 1
                    then splitChild (BTreeNode [] [] [root bt] False) 0
                    else Some (root bt)) = Some r0
              \<and> well_shaped lo h0 r0 \<and> length (keys r0) < 2 * btreeOrder - 1"
    proof (cases "length (keys (root bt)) \<ge> 2 * btreeOrder - 1")
      case True
      with le rt have full: "length (keys ([root bt] ! 0)) = 2 * btreeOrder - 1" by simp
      have "well_shaped lo (Suc h) (BTreeNode [] [] [root bt] False)"
        using assms full by (simp add: btreeOrder_def)
      from splitChild_shape [OF this _ full assms(2)] True show ?thesis
        by (auto simp add: btreeOrder_def)
    next
      case False
      with assms(1) show ?thesis by auto
    qed
    then obtain r0 h0 where
      r0: "(if length (keys (root bt)) \<ge> 2 * btreeOrder - 1
            then splitChild (BTreeNode [] [] [root bt] False) 0
            else Some (root bt)) = Some r0"
      and w0: "well_shaped lo h0 r0" and n0: "length (keys r0) < 2 * btreeOrder - 1"
      by blast
    from insertNonFull_shape [OF w0 assms(2) n0, of key r] obtain r1 where
      "insertNonFull r0 key r = Some r1" "well_shaped lo h0 r1"
      by blast
    with s False r0 show ?thesis
      by (auto simp add: Insert_def simp del: One_nat_def)
  qed
qed

lemma Delete_shape:
  assumes "well_shaped 0 h (root bt)"
  shows "\<exists>bt' found. Delete bt key = Some (bt', found) \<and> well_shaped 0 h (root bt')"
  using deleteNode_shape [OF assms, of key] by (auto simp add: Delete_def)

lemma run_operations_shape:
  assumes "well_shaped lo h (root bt)" and "lo \<le> btreeOrder - 1"
    and "lo = 0 \<or> (\<forall>op \<in> set ops. is_insert op)"
  shows "\<exists>bt' h'. run_operations bt ops = Some bt' \<and> well_shaped lo h' (root bt')"
  using assms
proof (induction ops arbitrary: bt h)
  case Nil
  then show ?case by auto
next
  case (Cons op ops)
  have "\<exists>bt1 h1. apply_operation bt op = Some bt1 \<and> well_shaped lo h1 (root bt1)"
  proof (cases op)
    case (OpInsert key r)
    with Insert_shape [OF Cons.prems(1,2), of key r] show ?thesis
      by (auto simp add: apply_operation_def)
  next
    case (OpDelete key)
    with Cons.prems(3) have "lo = 0" by auto
    with Delete_shape [of h bt key] Cons.prems(1) OpDelete show ?thesis
      by (auto simp add: apply_operation_def)
  qed
  then obtain bt1 h1 where a: "apply_operation bt op = Some bt1"
    and w: "well_shaped lo h1 (root bt1)"
    by blast
  from Cons.prems(3) have "lo = 0 \<or> (\<forall>op \<in> set ops. is_insert op)" by auto
  from Cons.IH [OF w Cons.prems(2) this] a show ?case by simp
qed

lemma well_shaped_children:
  assumes "well_shaped lo h n"
  shows "\<forall>c \<in> set (children n). keys_between lo (2 * btreeOrder - 1) c"
proof -
  obtain ks vs cs leaf where n: "n = BTreeNode ks vs cs leaf" by (cases n)
  show ?thesis
  proof
    fix c
    assume "c \<in> set (children n)"
    with assms n obtain h' where "well_shaped lo h' c" and "lo \<le> length (keys c)"
      by (auto split: if_splits nat.splits)
    then show "keys_between lo (2 * btreeOrder - 1) c"
      by (rule well_shaped_keys_between)
  qed
qed

lemma well_shaped_root_keys: "well_shaped lo h n \<Longrightarrow> length (keys n) \<le> 2 * btreeOrder - 1"
  by (cases n) simp

lemma inner_keys_at_least_iff:
  "inner_keys_at_least lo n =
     ((isLeaf n \<or> lo \<le> length (keys n)) \<and> (\<forall>c \<in> set (children n). inner_keys_at_least lo c))"
  by (cases n) simp

lemma inner_children:
  "inner_keys_at_least lo n \<Longrightarrow> \<forall>c \<in> set (children n). inner_keys_at_least lo c"
  by (cases n) simp

lemma inner_keys:
  "inner_keys_at_least lo n \<Longrightarrow> isLeaf n \<or> lo \<le> length (keys n)"
  by (cases n) simp

lemma inner_update:
  assumes "\<forall>c \<in> set cs. inner_keys_at_least lo c" and "inner_keys_at_least lo c'"
  shows "\<forall>c \<in> set (cs[i := c']). inner_keys_at_least lo c"
  using assms by (auto dest: set_update_subset_insert [THEN subsetD])

lemma splitChild_inner:
  assumes "well_shaped 0 (Suc h) (BTreeNode ks vs cs False)"
    and "i < length cs"
    and "length (keys (cs ! i)) = 2 * btreeOrder - 1"
    and "\<forall>c \<in> set cs. inner_keys_at_least (btreeOrder - 1) c"
    and "splitChild (BTreeNode ks vs cs False) i = Some p'"
  shows "\<forall>c \<in> set (children p'). inner_keys_at_least (btreeOrder - 1) c"
proof -
  obtain kc vc cc lc where fc: "cs ! i = BTreeNode kc vc cc lc" by (cases "cs ! i")
  from assms(1) have len: "length vs = length ks" "length cs = Suc (length ks)"
    and ch: "\<forall>c \<in> set cs. well_shaped 0 h c"
    by auto
  from assms(2) have ci: "cs ! i \<in> set cs" by simp
  with ch fc have wc: "well_shaped 0 h (BTreeNode kc vc cc lc)" by metis
  from assms(3) fc have kc: "length kc = 7" by (simp add: btreeOrder_def)
  from wc kc have vc: "length vc = 7" by simp
  let ?l = "BTreeNode (take 3 kc) (take 3 vc) (if lc then cc else take 4 cc) lc"
  let ?r = "BTreeNode (drop 4 kc) (drop 4 vc) (if lc then [] else drop 4 cc) lc"
  let ?p = "BTreeNode (take i ks @ kc ! 3 # drop i ks) (take i vs @ vc ! 3 # drop i vs)
              (take i cs @ ?l # ?r # drop (Suc i) cs) False"
  have "splitChild (BTreeNode ks vs cs False) i = Some ?p"
    using assms(2) len kc vc wc fc
    by (auto simp add: splitChild_def btreeOrder_def Let_def split: nat.splits)
  with assms(5) have p': "p' = ?p" by simp
  from assms(4) ci fc have "inner_keys_at_least (btreeOrder - 1) (BTreeNode kc vc cc lc)"
    by metis
  then have cc: "\<forall>c \<in> set cc. inner_keys_at_least (btreeOrder - 1) c" by simp
  have l: "inner_keys_at_least (btreeOrder - 1) ?l"
    using cc kc by (auto simp add: btreeOrder_def dest: in_set_takeD)
  have r: "inner_keys_at_least (btreeOrder - 1) ?r"
    using cc kc by (auto simp add: btreeOrder_def dest: in_set_dropD)
  have "\<forall>c \<in> set (take i cs @ ?l # ?r # drop (Suc i) cs). inner_keys_at_least (btreeOrder - 1) c"
    using assms(4) l r by (auto simp del: inner_keys_at_least.simps dest: in_set_takeD in_set_dropD)
  with p' show ?thesis by simp
qed

lemma insertNonFull_inner:
  assumes "well_shaped 0 h n" and "length (keys n) < 2 * btreeOrder - 1"
    and "\<forall>c \<in> set (children n). inner_keys_at_least (btreeOrder - 1) c"
  shows "\<exists>n'. insertNonFull n key r = Some n' \<and> isLeaf n' = isLeaf n
           \<and> length (keys n) \<le> length (keys n')
           \<and> (\<forall>c \<in> set (children n'). inner_keys_at_least (btreeOrder - 1) c)"
  using assms
proof (induction h arbitrary: n)
  case 0
  obtain ks vs cs leaf where n: "n = BTreeNode ks vs cs leaf" by (cases n)
  with "0.prems" show ?case
    by (auto simp add: btreeOrder_def Let_def split: if_splits)
next
  case (Suc h)
  obtain ks vs cs leaf where n: "n = BTreeNode ks vs cs leaf" by (cases n)
  with Suc.prems have leaf: "\<not> leaf" and len: "length vs = length ks" "length cs = Suc (length ks)"
    and ch: "\<forall>c \<in> set cs. well_shaped 0 h c"
    and nf: "length ks < 2 * btreeOrder - 1"
    and inn: "\<forall>c \<in> set cs. inner_keys_at_least (btreeOrder - 1) c"
    by (auto split: if_splits)
  let ?i = "scan_down key ks"
  from scan_down_le [of key ks] len have i: "?i < length cs" by simp
  then have ci: "cs ! ?i \<in> set cs" by simp
  with ch have wc: "well_shaped 0 h (cs ! ?i)" by auto
  show ?case
  proof (cases "2 * btreeOrder - 1 \<le> length (keys (cs ! ?i))")
    case True
    from wc have "length (keys (cs ! ?i)) \<le> 2 * btreeOrder - 1" by (cases "cs ! ?i") simp
    with True have full: "length (keys (cs ! ?i)) = 2 * btreeOrder - 1" by simp
    from Suc.prems(1) n leaf have ws: "well_shaped 0 (Suc h) (BTreeNode ks vs cs False)" by simp
    have z: "0 \<le> btreeOrder - 1" by simp
    from splitChild_shape [OF ws i full z nf]
    obtain p' where sp: "splitChild (BTreeNode ks vs cs False) ?i = Some p'"
      and wp: "well_shaped 0 (Suc h) p'" and lp: "\<not> isLeaf p'"
      and kp: "length (keys p') = Suc (length ks)"
      and cp: "length (children p') = Suc (length cs)"
      and k1: "length (keys (children p' ! ?i)) = btreeOrder - 1"
      and k2: "length (keys (children p' ! Suc ?i)) = btreeOrder - 1"
      by blast
    from splitChild_inner [OF ws i full inn sp]
    have inp: "\<forall>c \<in> set (children p'). inner_keys_at_least (btreeOrder - 1) c" .
    obtain ks' vs' cs' where p': "p' = BTreeNode ks' vs' cs' False"
      using lp by (cases p') auto
    let ?j = "if compare key (ks' ! ?i) > 0 then ?i + 1 else ?i"
    from i cp p' have j: "?j < length cs'" by auto
    from k1 k2 p' have kj: "length (keys (cs' ! ?j)) = btreeOrder - 1" by auto
    from wp p' j have wj: "well_shaped 0 h (cs' ! ?j)" by auto
    from inp p' j have ij: "inner_keys_at_least (btreeOrder - 1) (cs' ! ?j)"
      and inn': "\<forall>c \<in> set cs'. inner_keys_at_least (btreeOrder - 1) c"
      by auto
    from ij have icj: "\<forall>c \<in> set (children (cs' ! ?j)). inner_keys_at_least (btreeOrder - 1) c"
      by (rule inner_children)
    from kj have nfj: "length (keys (cs' ! ?j)) < 2 * btreeOrder - 1" by (simp add: btreeOrder_def)
    from Suc.IH [OF wj nfj icj] obtain c' where
      ins: "insertNonFull (cs' ! ?j) key r = Some c'"
      and lf: "isLeaf c' = isLeaf (cs' ! ?j)"
      and lc': "length (keys (cs' ! ?j)) \<le> length (keys c')"
      and ic': "\<forall>c \<in> set (children c'). inner_keys_at_least (btreeOrder - 1) c"
      by blast
    from kj lc' ic' have "inner_keys_at_least (btreeOrder - 1) c'"
      by (simp add: inner_keys_at_least_iff [of _ c'])
    from inner_update [OF inn' this]
    have all: "\<forall>c \<in> set (cs'[?j := c']). inner_keys_at_least (btreeOrder - 1) c" .
    have "insertNonFull n key r = Some (BTreeNode ks' vs' (cs'[?j := c']) False)"
      using n leaf i True sp p' j ins by (simp add: Let_def)
    moreover have "length (keys n) \<le> length ks'" using n kp p' by simp
    ultimately show ?thesis using n leaf all by simp
  next
    case False
    then have nfi: "length (keys (cs ! ?i)) < 2 * btreeOrder - 1" by simp
    from inn ci have ii: "inner_keys_at_least (btreeOrder - 1) (cs ! ?i)" by blast
    then have ici: "\<forall>c \<in> set (children (cs ! ?i)). inner_keys_at_least (btreeOrder - 1) c"
      by (rule inner_children)
    from Suc.IH [OF wc nfi ici] obtain c' where
      ins: "insertNonFull (cs ! ?i) key r = Some c'"
      and lf: "isLeaf c' = isLeaf (cs ! ?i)"
      and lc': "length (keys (cs ! ?i)) \<le> length (keys c')"
      and ic': "\<forall>c \<in> set (children c'). inner_keys_at_least (btreeOrder - 1) c"
      by blast
    from ii have "isLeaf (cs ! ?i) \<or> btreeOrder - 1 \<le> length (keys (cs ! ?i))"
      by (rule inner_keys)
    with lf lc' ic' have "inner_keys_at_least (btreeOrder - 1) c'"
      by (auto simp add: inner_keys_at_least_iff [of _ c'])
    from inner_update [OF inn this]
    have all: "\<forall>c \<in> set (cs[?i := c']). inner_keys_at_least (btreeOrder - 1) c" .
    have "insertNonFull n key r = Some (BTreeNode ks vs (cs[?i := c']) leaf)"
      using n leaf i False ins by (simp add: Let_def)
    then show ?thesis using n leaf all by simp
  qed
qed

lemma deleteNode_inner:
  assumes "well_shaped 0 h n"
    and "\<forall>c \<in> set (children n). inner_keys_at_least lo c"
  shows "\<exists>n' found. deleteNode n key = Some (n', found) \<and> isLeaf n' = isLeaf n
           \<and> (\<not> isLeaf n \<longrightarrow> length (keys n') = length (keys n))
           \<and> (\<forall>c \<in> set (children n'). inner_keys_at_least lo c)"
  using assms
proof (induction h arbitrary: n)
  case 0
  obtain ks vs cs leaf where n: "n = BTreeNode ks vs cs leaf" by (cases n)
  with "0.prems" scan_up_le [of key ks] show ?case
    by (auto simp add: Let_def split: if_splits)
next
  case (Suc h)
  obtain ks vs cs leaf where n: "n = BTreeNode ks vs cs leaf" by (cases n)
  with Suc.prems have leaf: "\<not> leaf" and len: "length vs = length ks" "length cs = Suc (length ks)"
    and ch: "\<forall>c \<in> set cs. well_shaped 0 h c"
    and inn: "\<forall>c \<in> set cs. inner_keys_at_least lo c"
    by (auto split: if_splits)
  let ?i = "scan_up key ks"
  from scan_up_le [of key ks] len have i: "?i < length cs" by simp
  then have ci: "cs ! ?i \<in> set cs" by simp
  with ch have wc: "well_shaped 0 h (cs ! ?i)" by simp
  from inn ci have ii: "inner_keys_at_least lo (cs ! ?i)" by blast
  then have ici: "\<forall>c \<in> set (children (cs ! ?i)). inner_keys_at_least lo c"
      by (rule inner_children)
  from Suc.IH [OF wc ici] obtain c' found where
    d: "deleteNode (cs ! ?i) key = Some (c', found)"
    and lf: "isLeaf c' = isLeaf (cs ! ?i)"
    and lk: "\<not> isLeaf (cs ! ?i) \<longrightarrow> length (keys c') = length (keys (cs ! ?i))"
    and ic': "\<forall>c \<in> set (children c'). inner_keys_at_least lo c"
    by blast
  from ii have "isLeaf (cs ! ?i) \<or> lo \<le> length (keys (cs ! ?i))"
      by (rule inner_keys)
  with lf lk ic' have "inner_keys_at_least lo c'"
    by (auto simp add: inner_keys_at_least_iff [of _ c'])
  from inner_update [OF inn this]
  have all: "\<forall>c \<in> set (cs[?i := c']). inner_keys_at_least lo c" .
  show ?case
  proof (cases "?i < length ks \<and> compare key (ks ! ?i) = 0")
    case True
    with n leaf inn show ?thesis by (auto simp add: Let_def)
  next
    case False
    with n leaf i d have "deleteNode n key = Some (BTreeNode ks vs (cs[?i := c']) leaf, found)"
      by (auto simp add: Let_def)
    with n all show ?thesis by simp
  qed
qed

lemma Insert_inner:
  assumes "well_shaped 0 h (root bt)"
    and "\<forall>c \<in> set (children (root bt)). inner_keys_at_least (btreeOrder - 1) c"
  shows "\<exists>bt' err. Insert bt key r = Some (bt', err)
    \<and> (\<forall>c \<in> set (children (root bt')). inner_keys_at_least (btreeOrder - 1) c)"
proof -
  from searchNode_total [OF assms(1), of key] obtain v found where
    s: "searchNode (root bt) key = Some (v, found)"
    by auto
  show ?thesis
  proof (cases found)
    case True
    with s assms(2) show ?thesis by (auto simp add: Insert_def)
  next
    case False
    have z: "0 \<le> btreeOrder - 1" by simp
    have "\<exists>r0 h0. (if length (keys (root bt)) \<ge> 2 * btreeOrder - 1
                    then splitChild (BTreeNode [] [] [root bt] False) 0
                    else Some (root bt)) = Some r0
              \<and> well_shaped 0 h0 r0 \<and> length (keys r0) < 2 * btreeOrder - 1
              \<and> (\<forall>c \<in> set (children r0). inner_keys_at_least (btreeOrder - 1) c)"
    proof (cases "length (keys (root bt)) \<ge> 2 * btreeOrder - 1")
      case True
      with well_shaped_root_keys [OF assms(1)]
      have full: "length (keys ([root bt] ! 0)) = 2 * btreeOrder - 1" by simp
      have ws: "well_shaped 0 (Suc h) (BTreeNode [] [] [root bt] False)"
        using assms(1) by (simp add: btreeOrder_def)
      have i0: "0 < length [root bt]" by simp
      have e: "length ([] :: gvalue list) < 2 * btreeOrder - 1" by (simp add: btreeOrder_def)
      from True assms(2) have "inner_keys_at_least (btreeOrder - 1) (root bt)"
        by (simp add: inner_keys_at_least_iff [of _ "root bt"] btreeOrder_def)
      then have inn: "\<forall>c \<in> set [root bt]. inner_keys_at_least (btreeOrder - 1) c" by simp
      from splitChild_shape [OF ws i0 full z e] obtain p' where
        sp: "splitChild (BTreeNode [] [] [root bt] False) 0 = Some p'"
        and wp: "well_shaped 0 (Suc h) p'" and kp: "length (keys p') = Suc (length ([] :: gvalue list))"
        by blast
      from splitChild_inner [OF ws i0 full inn sp]
      have "\<forall>c \<in> set (children p'). inner_keys_at_least (btreeOrder - 1) c" .
      with True sp wp kp show ?thesis by (auto simp add: btreeOrder_def)
    next
      case False
      with assms show ?thesis by auto
    qed
    then obtain r0 h0 where
      r0: "(if length (keys (root bt)) \<ge> 2 * btreeOrder - 1
            then splitChild (BTreeNode [] [] [root bt] False) 0
            else Some (root bt)) = Some r0"
      and w0: "well_shaped 0 h0 r0" and n0: "length (keys r0) < 2 * btreeOrder - 1"
      and i0: "\<forall>c \<in> set (children r0). inner_keys_at_least (btreeOrder - 1) c"
      by blast
    from insertNonFull_inner [OF w0 n0 i0, of key r] obtain r1 where
      "insertNonFull r0 key r = Some r1"
      "\<forall>c \<in> set (children r1). inner_keys_at_least (btreeOrder - 1) c"
      by blast
    with s False r0 show ?thesis
      by (auto simp add: Insert_def simp del: One_nat_def)
  qed
qed

lemma Delete_inner:
  assumes "well_shaped 0 h (root bt)"
    and "\<forall>c \<in> set (children (root bt)). inner_keys_at_least lo c"
  shows "\<exists>bt' found. Delete bt key = Some (bt', found)
    \<and> (\<forall>c \<in> set (children (root bt')). inner_keys_at_least lo c)"
  using deleteNode_inner [OF assms, of key] by (auto simp add: Delete_def)

lemma run_operations_inner:
  assumes "well_shaped 0 h (root bt)"
    and "\<forall>c \<in> set (children (root bt)). inner_keys_at_least (btreeOrder - 1) c"
  shows "\<exists>bt'. run_operations bt ops = Some bt'
    \<and> (\<forall>c \<in> set (children (root bt')). inner_keys_at_least (btreeOrder - 1) c)"
  using assms
proof (induction ops arbitrary: bt h)
  case Nil
  then show ?case by auto
next
  case (Cons op ops)
  have z: "0 \<le> btreeOrder - 1" by simp
  have "\<exists>bt1 h1. apply_operation bt op = Some bt1 \<and> well_shaped 0 h1 (root bt1)
      \<and> (\<forall>c \<in> set (children (root bt1)). inner_keys_at_least (btreeOrder - 1) c)"
  proof (cases op)
    case (OpInsert key r)
    with Insert_shape [OF Cons.prems(1) z, of key r] Insert_inner [OF Cons.prems, of key r]
    show ?thesis
      by (auto simp add: apply_operation_def)
  next
    case (OpDelete key)
    with Delete_shape [OF Cons.prems(1), of key] Delete_inner [OF Cons.prems, of key]
    show ?thesis
      by (auto simp add: apply_operation_def)
  qed
  then obtain bt1 h1 where a: "apply_operation bt op = Some bt1"
    and w: "well_shaped 0 h1 (root bt1)"
    and i: "\<forall>c \<in> set (children (root bt1)). inner_keys_at_least (btreeOrder - 1) c"
    by blast
  from Cons.IH [OF w i] a show ?case by simp
qed

text \<open>
  C5, as the code has it. The claim says that every non-root node keeps at least
  \<open>btreeOrder - 1\<close> keys after any inserts and deletes. \<open>deleteNode\<close> removes a key from a
  leaf and does nothing else: after inserting 1 to 8 and deleting 1, the left leaf holds
  two keys.
\<close>

theorem delete_underflow_counterexample:
  "run_operations NewBTree
     [OpInsert (VInt 1) 10, OpInsert (VInt 2) 20, OpInsert (VInt 3) 30, OpInsert (VInt 4) 40,
      OpInsert (VInt 5) 50, OpInsert (VInt 6) 60, OpInsert (VInt 7) 70, OpInsert (VInt 8) 80,
      OpDelete (VInt 1)]
   = Some \<lparr>root = BTreeNode [VInt 4] [40]
              [BTreeNode [VInt 2, VInt 3] [20, 30] [] True,
               BTreeNode [VInt 5, VInt 6, VInt 7, VInt 8] [50, 60, 70, 80] [] True] False\<rparr>
   \<and> \<not> keys_between (btreeOrder - 1) (2 * btreeOrder - 1)
         (BTreeNode [VInt 2, VInt 3] [20, 30] [] True)"
  by (simp add: apply_operation_def Insert_def Delete_def NewBTree_def splitChild_def
      btreeOrder_def scan_up_def scan_down_def three_way_def Let_def)

text \<open>
  C5, amended. For every sequence of \<open>Insert\<close> and \<open>Delete\<close> operations from the empty
  tree, no operation panics, every leaf of the resulting tree is at equal depth, every
  node holds at most \<open>2 * btreeOrder - 1\<close> keys, and every non-root node that is not a
  leaf holds at least \<open>btreeOrder - 1\<close> keys; when the sequence has inserts only, every
  non-root leaf holds at least \<open>btreeOrder - 1\<close> keys too.
\<close>

theorem reachable_btree_shape:
  "\<exists>bt h. run_operations NewBTree ops = Some bt
     \<and> leaves_at_depth h (root bt)
     \<and> length (keys (root bt)) \<le> 2 * btreeOrder - 1
     \<and> (\<forall>c \<in> set (children (root bt)).
          keys_between 0 (2 * btreeOrder - 1) c \<and> inner_keys_at_least (btreeOrder - 1) c)
     \<and> ((\<forall>op \<in> set ops. is_insert op) \<longrightarrow>
          (\<forall>c \<in> set (children (root bt)). keys_between (btreeOrder - 1) (2 * btreeOrder - 1) c))"
proof -
  have w0: "well_shaped lo 0 (root NewBTree)" for lo
    by (simp add: NewBTree_def)
  have i0: "\<forall>c \<in> set (children (root NewBTree)). inner_keys_at_least (btreeOrder - 1) c"
    by (simp add: NewBTree_def)
  from run_operations_shape [OF w0, of 0 ops] obtain bt h where
    r: "run_operations NewBTree ops = Some bt" and w: "well_shaped 0 h (root bt)"
    by auto
  from run_operations_inner [OF w0 i0, of ops] r
  have inn: "\<forall>c \<in> set (children (root bt)). inner_keys_at_least (btreeOrder - 1) c"
    by auto
  have "\<forall>c \<in> set (children (root bt)). keys_between (btreeOrder - 1) (2 * btreeOrder - 1) c"
    if "\<forall>op \<in> set ops. is_insert op"
  proof -
    from run_operations_shape [OF w0, of "btreeOrder - 1" ops] that r obtain h' where
      "well_shaped (btreeOrder - 1) h' (root bt)"
      by auto
    then show ?thesis by (rule well_shaped_children)
  qed
  with r well_shaped_leaves [OF w] well_shaped_root_keys [OF w] well_shaped_children [OF w] inn
  show ?thesis by blast
qed


theorem reachable_btree_shape_witness:
  "(\<exists>bt. run_operations NewBTree [
      OpInsert (VInt 1) 10, OpInsert (VInt 2) 20, OpInsert (VInt 3) 30,
      OpInsert (VInt 4) 40, OpInsert (VInt 5) 50, OpInsert (VInt 6) 60,
      OpInsert (VInt 7) 70, OpInsert (VInt 8) 80, OpInsert (VInt 9) 90,
      OpInsert (VInt 10) 100, OpInsert (VInt 11) 110, OpInsert (VInt 12) 120,
      OpInsert (VInt 13) 130, OpInsert (VInt 14) 140, OpInsert (VInt 15) 150,
      OpInsert (VInt 16) 160, OpInsert (VInt 17) 170, OpInsert (VInt 18) 180,
      OpInsert (VInt 19) 190, OpInsert (VInt 20) 200, OpInsert (VInt 21) 210,
      OpInsert (VInt 22) 220, OpInsert (VInt 23) 230, OpInsert (VInt 24) 240,
      OpInsert (VInt 25) 250, OpInsert (VInt 26) 260, OpInsert (VInt 27) 270,
      OpInsert (VInt 28) 280, OpInsert (VInt 29) 290, OpInsert (VInt 30) 300,
      OpInsert (VInt 31) 310, OpInsert (VInt 32) 320, OpInsert (VInt 33) 330,
      OpDelete (VInt 1), OpDelete (VInt 4), OpDelete (VInt 16)] = Some bt
     \<and> bt = \<lparr>root =
         BTreeNode [VInt 16] [160]
          [BTreeNode [VInt 4, VInt 8, VInt 12] [40, 80, 120]
            [BTreeNode [VInt 2, VInt 3] [20, 30] [] True,
             BTreeNode [VInt 5, VInt 6, VInt 7] [50, 60, 70] [] True,
             BTreeNode [VInt 9, VInt 10, VInt 11] [90, 100, 110] [] True,
             BTreeNode [VInt 13, VInt 14, VInt 15] [130, 140, 150] [] True] False,
           BTreeNode [VInt 20, VInt 24, VInt 28] [200, 240, 280]
            [BTreeNode [VInt 17, VInt 18, VInt 19] [170, 180, 190] [] True,
             BTreeNode [VInt 21, VInt 22, VInt 23] [210, 220, 230] [] True,
             BTreeNode [VInt 25, VInt 26, VInt 27] [250, 260, 270] [] True,
             BTreeNode [VInt 29, VInt 30, VInt 31, VInt 32, VInt 33] [290, 300, 310, 320, 330]
               [] True] False] False\<rparr>
     \<and> leaves_at_depth (Suc (Suc 0)) (root bt)
     \<and> length (keys (root bt)) \<le> 2 * btreeOrder - 1
     \<and> (\<forall>c \<in> set (children (root bt)).
          keys_between 0 (2 * btreeOrder - 1) c \<and> inner_keys_at_least (btreeOrder - 1) c)
     \<and> \<not> (\<forall>c \<in> set (children (root bt)). keys_between (btreeOrder - 1) (2 * btreeOrder - 1) c))
   \<and> (\<exists>bt. run_operations NewBTree [
      OpInsert (VInt 5) 50, OpInsert (VInt 3) 30, OpInsert (VInt 8) 80,
      OpInsert (VInt 1) 10, OpInsert (VInt 7) 70, OpInsert (VInt 2) 20,
      OpInsert (VInt 6) 60, OpInsert (VInt 4) 40, OpInsert (VInt 9) 90] = Some bt
     \<and> bt = \<lparr>root =
         BTreeNode [VInt 5] [50]
          [BTreeNode [VInt 1, VInt 2, VInt 3, VInt 4] [10, 20, 30, 40] [] True,
           BTreeNode [VInt 6, VInt 7, VInt 8, VInt 9] [60, 70, 80, 90] [] True] False\<rparr>
     \<and> leaves_at_depth (Suc 0) (root bt)
     \<and> (\<forall>c \<in> set (children (root bt)). keys_between (btreeOrder - 1) (2 * btreeOrder - 1) c))"
  using
    reachable_btree_shape [of "[
      OpInsert (VInt 1) 10, OpInsert (VInt 2) 20, OpInsert (VInt 3) 30,
      OpInsert (VInt 4) 40, OpInsert (VInt 5) 50, OpInsert (VInt 6) 60,
      OpInsert (VInt 7) 70, OpInsert (VInt 8) 80, OpInsert (VInt 9) 90,
      OpInsert (VInt 10) 100, OpInsert (VInt 11) 110, OpInsert (VInt 12) 120,
      OpInsert (VInt 13) 130, OpInsert (VInt 14) 140, OpInsert (VInt 15) 150,
      OpInsert (VInt 16) 160, OpInsert (VInt 17) 170, OpInsert (VInt 18) 180,
      OpInsert (VInt 19) 190, OpInsert (VInt 20) 200, OpInsert (VInt 21) 210,
      OpInsert (VInt 22) 220, OpInsert (VInt 23) 230, OpInsert (VInt 24) 240,
      OpInsert (VInt 25) 250, OpInsert (VInt 26) 260, OpInsert (VInt 27) 270,
      OpInsert (VInt 28) 280, OpInsert (VInt 29) 290, OpInsert (VInt 30) 300,
      OpInsert (VInt 31) 310, OpInsert (VInt 32) 320, OpInsert (VInt 33) 330,
      OpDelete (VInt 1), OpDelete (VInt 4), OpDelete (VInt 16)]"]
    reachable_btree_shape [of "[
      OpInsert (VInt 5) 50, OpInsert (VInt 3) 30, OpInsert (VInt 8) 80,
      OpInsert (VInt 1) 10, OpInsert (VInt 7) 70, OpInsert (VInt 2) 20,
      OpInsert (VInt 6) 60, OpInsert (VInt 4) 40, OpInsert (VInt 9) 90]"]
  by (simp add: apply_operation_def Insert_def Delete_def NewBTree_def splitChild_def
      btreeOrder_def scan_up_def scan_down_def three_way_def Let_def)

section \<open>The index as an ordered map\<close>

lemma weave_wl:
  "length cl = length el \<Longrightarrow> weave (cl @ cr) (el @ er) = wl cl el @ weave cr er"
  by (induction cl el rule: list_induct2) auto

lemma weave_wr:
  "length cr = length er \<Longrightarrow> weave (c # cr) er = c @ wr er cr"
  by (induction cr er arbitrary: c rule: list_induct2) auto

lemma weave_mid:
  "length cl = Suc (length el) \<Longrightarrow>
     weave (cl @ cr) (el @ e # er) = weave cl el @ e # weave cr er"
proof (induction el arbitrary: cl)
  case Nil
  then obtain c where "cl = [c]" by (cases cl) auto
  then show ?case by simp
next
  case (Cons x el)
  then obtain c cl' where cl: "cl = c # cl'" "length cl' = Suc (length el)" by (cases cl) auto
  with Cons.IH [of cl'] show ?case by simp
qed

lemma weave_at:
  assumes "length cs = Suc (length es)" and "i \<le> length es"
  shows "weave cs es = wl (take i cs) (take i es) @ cs ! i @ wr (drop i es) (drop (Suc i) cs)"
proof -
  have "weave cs es = weave (take i cs @ drop i cs) (take i es @ drop i es)" by simp
  also have "\<dots> = wl (take i cs) (take i es) @ weave (drop i cs) (drop i es)"
    using assms by (intro weave_wl) simp
  also have "drop i cs = cs ! i # drop (Suc i) cs"
    using assms by (simp add: Cons_nth_drop_Suc)
  also have "weave (cs ! i # drop (Suc i) cs) (drop i es) = cs ! i @ wr (drop i es) (drop (Suc i) cs)"
    using assms by (intro weave_wr) simp
  finally show ?thesis .
qed

lemma wl_bound:
  assumes "sorted_wrt (<) (map f (wl cs es))" and "x \<in> set (wl cs es)"
  shows "\<exists>e \<in> set es. f x \<le> (f e :: int)"
  using assms
proof (induction cs es rule: wl.induct)
  case (1 c cs e es)
  from "1.prems"(1) have s: "sorted_wrt (<) (map f (wl cs es))"
    and c: "\<forall>y \<in> set c. f y < f e"
    by (auto simp add: sorted_wrt_append)
  from "1.prems"(2) consider "x \<in> set c" | "x = e" | "x \<in> set (wl cs es)" by auto
  then show ?case
  proof cases
    case 1
    with c show ?thesis by force
  next
    case 2
    then show ?thesis by simp
  next
    case 3
    from "1.IH" [OF s 3] show ?thesis by auto
  qed
qed simp_all

lemma wr_bound:
  assumes "sorted_wrt (<) (map f (wr es cs))" and "x \<in> set (wr es cs)"
  shows "\<exists>e \<in> set es. (f e :: int) \<le> f x"
  using assms
proof (induction es cs rule: wr.induct)
  case (1 e es c cs)
  from "1.prems"(1) have s: "sorted_wrt (<) (map f (wr es cs))"
    and c: "\<forall>y \<in> set c. f e < f y"
    by (auto simp add: sorted_wrt_append)
  from "1.prems"(2) consider "x \<in> set c" | "x = e" | "x \<in> set (wr es cs)" by auto
  then show ?case
  proof cases
    case 1
    with c show ?thesis by force
  next
    case 2
    then show ?thesis by simp
  next
    case 3
    from "1.IH" [OF s 3] show ?thesis by auto
  qed
qed simp_all

lemma compare_int:
  assumes "int_key k"
  shows "(compare (VInt a) k > 0) = (the_int k < a)"
    and "(compare (VInt a) k < 0) = (a < the_int k)"
    and "(compare (VInt a) k = 0) = (k = VInt a)"
  using assms by (cases k; auto simp add: three_way_def)+

lemma int_key_eq: "int_key k \<Longrightarrow> the_int k = a \<Longrightarrow> k = VInt a"
  by (cases k) auto

lemma dropWhile_lower:
  "sorted_wrt (<) (map f xs) \<Longrightarrow> \<forall>x \<in> set (dropWhile (\<lambda>x. f x < a) xs). (a :: int) \<le> f x"
proof (induction xs)
  case Nil
  then show ?case by simp
next
  case (Cons y ys)
  show ?case
  proof (cases "f y < a")
    case True
    with Cons show ?thesis by simp
  next
    case False
    from Cons.prems have "\<forall>x \<in> set ys. f y < f x" by simp
    with False show ?thesis by force
  qed
qed

lemma dropWhile_rev_upper:
  "sorted_wrt (<) (map f xs) \<Longrightarrow> \<forall>x \<in> set (dropWhile (\<lambda>x. a < f x) (rev xs)). f x \<le> (a :: int)"
proof (induction xs rule: rev_induct)
  case Nil
  then show ?case by simp
next
  case (snoc y ys)
  from snoc.prems have so: "sorted_wrt (<) (map f ys)" and lt: "\<forall>x \<in> set ys. f x < f y"
    by (auto simp add: sorted_wrt_append)
  show ?case
  proof (cases "a < f y")
    case True
    with snoc.IH [OF so] show ?thesis by simp
  next
    case False
    with lt show ?thesis by force
  qed
qed

lemma takeWhile_hit:
  "sorted_wrt (<) (map f xs) \<Longrightarrow> x \<in> set xs \<Longrightarrow> f x = (a :: int) \<Longrightarrow>
     length (takeWhile (\<lambda>x. f x < a) xs) < length xs
     \<and> f (xs ! length (takeWhile (\<lambda>x. f x < a) xs)) = a"
  by (induction xs) force+

lemma take_scan_down:
  "take (length (dropWhile Q (rev xs))) xs = rev (dropWhile Q (rev xs))"
  and drop_scan_down:
  "drop (length (dropWhile Q (rev xs))) xs = rev (takeWhile Q (rev xs))"
proof -
  have "xs = rev (dropWhile Q (rev xs)) @ rev (takeWhile Q (rev xs))"
    by (metis rev_append rev_rev_ident takeWhile_dropWhile_id)
  then have "take (length (rev (dropWhile Q (rev xs)))) xs = rev (dropWhile Q (rev xs))
    \<and> drop (length (rev (dropWhile Q (rev xs)))) xs = rev (takeWhile Q (rev xs))"
    by (metis append_eq_conv_conj)
  then show "take (length (dropWhile Q (rev xs))) xs = rev (dropWhile Q (rev xs))"
    and "drop (length (dropWhile Q (rev xs))) xs = rev (takeWhile Q (rev xs))"
    by simp_all
qed

lemma scan_up_int:
  assumes "\<forall>k \<in> set ks. int_key k"
  shows "scan_up (VInt a) ks = length (takeWhile (\<lambda>k. the_int k < a) ks)"
  unfolding scan_up_def
  using assms by (auto simp add: compare_int intro!: arg_cong [where f = length] takeWhile_cong)

lemma scan_down_int:
  assumes "\<forall>k \<in> set ks. int_key k"
  shows "scan_down (VInt a) ks = length (dropWhile (\<lambda>k. a < the_int k) (rev ks))"
  unfolding scan_down_def
  using assms by (auto simp add: compare_int intro!: arg_cong [where f = length] dropWhile_cong)

lemma scan_up_bounds:
  assumes "int_keys ks"
  shows "\<forall>k \<in> set (take (scan_up (VInt a) ks) ks). the_int k < a"
    and "\<forall>k \<in> set (drop (scan_up (VInt a) ks) ks). a \<le> the_int k"
    and "VInt a \<in> set ks \<Longrightarrow>
           scan_up (VInt a) ks < length ks \<and> ks ! scan_up (VInt a) ks = VInt a"
proof -
  from assms have ik: "\<forall>k \<in> set ks. int_key k" and so: "sorted_wrt (<) (map the_int ks)"
    by (simp_all add: int_keys_def)
  let ?P = "\<lambda>k. the_int k < a"
  have i: "scan_up (VInt a) ks = length (takeWhile ?P ks)" by (rule scan_up_int [OF ik])
  show "\<forall>k \<in> set (take (scan_up (VInt a) ks) ks). the_int k < a"
    unfolding i takeWhile_eq_take [symmetric] by (auto dest: set_takeWhileD)
  show "\<forall>k \<in> set (drop (scan_up (VInt a) ks) ks). a \<le> the_int k"
    unfolding i dropWhile_eq_drop [symmetric] by (rule dropWhile_lower [OF so])
  assume "VInt a \<in> set ks"
  from takeWhile_hit [OF so this, of a] have lt: "length (takeWhile ?P ks) < length ks"
    and eq: "the_int (ks ! length (takeWhile ?P ks)) = a"
    by simp_all
  from lt ik have "int_key (ks ! length (takeWhile ?P ks))" by simp
  from int_key_eq [OF this eq] lt
  show "scan_up (VInt a) ks < length ks \<and> ks ! scan_up (VInt a) ks = VInt a"
    unfolding i by simp
qed

lemma scan_down_bounds:
  assumes "int_keys ks"
  shows "\<forall>k \<in> set (take (scan_down (VInt a) ks) ks). the_int k \<le> a"
    and "\<forall>k \<in> set (drop (scan_down (VInt a) ks) ks). a < the_int k"
proof -
  from assms have ik: "\<forall>k \<in> set ks. int_key k" and so: "sorted_wrt (<) (map the_int ks)"
    by (simp_all add: int_keys_def)
  let ?Q = "\<lambda>k. a < the_int k"
  have j: "scan_down (VInt a) ks = length (dropWhile ?Q (rev ks))" by (rule scan_down_int [OF ik])
  show "\<forall>k \<in> set (take (scan_down (VInt a) ks) ks). the_int k \<le> a"
    unfolding j take_scan_down using dropWhile_rev_upper [OF so, of a] by simp
  show "\<forall>k \<in> set (drop (scan_down (VInt a) ks) ks). a < the_int k"
    unfolding j drop_scan_down by (auto dest: set_takeWhileD)
qed

lemma inorder_at:
  assumes "length vs = length ks" and "length cs = Suc (length ks)" and "i \<le> length ks"
  shows "inorder (BTreeNode ks vs cs False)
           = left_part ks vs cs i @ inorder (cs ! i) @ right_part ks vs cs i"
  using assms weave_at [of "map inorder cs" "zip ks vs" i]
  by (simp add: left_part_def right_part_def take_map drop_map take_zip drop_zip)

lemma ordered_append:
  "ordered (xs @ ys) \<longleftrightarrow>
     ordered xs \<and> ordered ys \<and> (\<forall>x \<in> set xs. \<forall>y \<in> set ys. the_int (fst x) < the_int (fst y))"
  by (auto simp add: ordered_def sorted_wrt_append)

lemma ordered_keys_distinct: "ordered es \<Longrightarrow> distinct (map fst es)"
proof -
  assume "ordered es"
  then have "sorted_wrt (<) (map the_int (map fst es))" by (simp add: ordered_def)
  then have "distinct (map the_int (map fst es))"
    using strict_sorted_iff by blast
  then show ?thesis by (rule distinct_map [THEN iffD1, THEN conjunct1])
qed

lemma zip_fst_mem: "e \<in> set (zip xs ys) \<Longrightarrow> fst e \<in> set xs"
  by (metis prod.collapse set_zip_leftD)

lemma set_weave:
  "length cs = Suc (length es) \<Longrightarrow> set es \<subseteq> set (weave cs es)"
proof (induction es arbitrary: cs)
  case Nil
  then show ?case by simp
next
  case (Cons e es)
  then obtain c cs' where "cs = c # cs'" "length cs' = Suc (length es)" by (cases cs) auto
  with Cons.IH [of cs'] show ?case by auto
qed

lemma sorted_weave:
  "length cs = Suc (length es) \<Longrightarrow> sorted_wrt P (map f (weave cs es)) \<Longrightarrow> sorted_wrt P (map f es)"
proof (induction es arbitrary: cs)
  case Nil
  then show ?case by simp
next
  case (Cons e es)
  then obtain c cs' where cs: "cs = c # cs'" "length cs' = Suc (length es)" by (cases cs) auto
  with Cons.prems(2) have s: "sorted_wrt P (map f (weave cs' es))"
    and a: "\<forall>y \<in> set (weave cs' es). P (f e) (f y)"
    by (auto simp add: sorted_wrt_append)
  from set_weave [OF cs(2)] a have "\<forall>y \<in> set es. P (f e) (f y)" by auto
  with Cons.IH [OF cs(2) s] show ?case by simp
qed

lemma node_int_keys:
  assumes "length vs = length ks" and "leaf \<or> length cs = Suc (length ks)"
    and "ordered (inorder (BTreeNode ks vs cs leaf))"
  shows "int_keys ks"
proof -
  have k: "map fst (zip ks vs) = ks" using assms(1) by simp
  have "ordered (zip ks vs)"
  proof (cases leaf)
    case True
    with assms(3) show ?thesis by simp
  next
    case False
    with assms have len: "length (map inorder cs) = Suc (length (zip ks vs))" by simp
    from assms(3) False have o: "ordered (weave (map inorder cs) (zip ks vs))" by simp
    from set_weave [OF len] o have "\<forall>e \<in> set (zip ks vs). int_key (fst e)"
      by (auto simp add: ordered_def)
    moreover from sorted_weave [OF len, of "(<)" "the_int \<circ> fst"] o
    have "sorted_wrt (<) (map (the_int \<circ> fst) (zip ks vs))"
      by (simp add: ordered_def)
    ultimately show ?thesis by (simp add: ordered_def)
  qed
  then have "(\<forall>k \<in> set (map fst (zip ks vs)). int_key k)
      \<and> sorted_wrt (<) (map the_int (map fst (zip ks vs)))"
    by (simp add: ordered_def)
  then show ?thesis unfolding k int_keys_def .
qed

lemma left_part_bound:
  assumes "ordered (left_part ks vs cs i)" and "x \<in> set (left_part ks vs cs i)"
  shows "\<exists>k \<in> set (take i ks). the_int (fst x) \<le> the_int k"
proof -
  from assms(1) have "sorted_wrt (<) (map (the_int \<circ> fst) (left_part ks vs cs i))"
    by (simp add: ordered_def)
  from wl_bound [OF this [unfolded left_part_def] assms(2) [unfolded left_part_def]]
  obtain e where "e \<in> set (zip (take i ks) (take i vs))" "the_int (fst x) \<le> the_int (fst e)"
    by auto
  moreover from this have "fst e \<in> set (take i ks)"
    by (auto dest: zip_fst_mem)
  ultimately show ?thesis by blast
qed

lemma right_part_bound:
  assumes "ordered (right_part ks vs cs i)" and "x \<in> set (right_part ks vs cs i)"
  shows "\<exists>k \<in> set (drop i ks). the_int k \<le> the_int (fst x)"
proof -
  from assms(1) have "sorted_wrt (<) (map (the_int \<circ> fst) (right_part ks vs cs i))"
    by (simp add: ordered_def)
  from wr_bound [OF this [unfolded right_part_def] assms(2) [unfolded right_part_def]]
  obtain e where "e \<in> set (zip (drop i ks) (drop i vs))" "the_int (fst e) \<le> the_int (fst x)"
    by auto
  moreover from this have "fst e \<in> set (drop i ks)"
    by (auto dest: zip_fst_mem)
  ultimately show ?thesis by blast
qed

lemma map_of_skip_left:
  assumes "k \<notin> fst ` set xs"
  shows "map_of (xs @ ys) k = map_of ys k"
proof -
  from assms have "map_of xs k = None" by (simp add: map_of_eq_None_iff)
  then show ?thesis by (simp add: map_add_def)
qed

lemma map_of_skip_right:
  assumes "k \<notin> fst ` set ys"
  shows "map_of (xs @ ys) k = map_of xs k"
proof -
  from assms have "map_of ys k = None" by (simp add: map_of_eq_None_iff)
  then show ?thesis by (simp add: map_add_def split: option.splits)
qed

lemma int_keys_distinct: "int_keys ks \<Longrightarrow> distinct ks"
proof -
  assume "int_keys ks"
  then have "sorted_wrt (<) (map the_int ks)" by (simp add: int_keys_def)
  then have "distinct (map the_int ks)" using strict_sorted_iff by blast
  then show ?thesis by (rule distinct_map [THEN iffD1, THEN conjunct1])
qed

lemma searchNode_leaf:
  assumes "length vs = length ks" and "ordered (zip ks vs)"
  shows "searchNode (BTreeNode ks vs cs True) (VInt a) =
     (case map_of (zip ks vs) (VInt a) of None \<Rightarrow> Some (-1, False) | Some v \<Rightarrow> Some (v, True))"
proof -
  from assms have ik: "int_keys ks"
    using node_int_keys [of vs ks True cs] by simp
  let ?i = "scan_up (VInt a) ks"
  show ?thesis
  proof (cases "VInt a \<in> set ks")
    case True
    from scan_up_bounds(3) [OF ik True] have i: "?i < length ks" and e: "ks ! ?i = VInt a"
      by simp_all
    from i assms(1) int_keys_distinct [OF ik]
    have "map_of (zip ks vs) (ks ! ?i) = Some (vs ! ?i)"
      by (intro map_of_zip_nth) simp_all
    with i e assms(1) show ?thesis by (simp add: Let_def three_way_def)
  next
    case False
    then have n: "map_of (zip ks vs) (VInt a) = None"
      using assms(1) by (simp add: map_of_zip_is_None)
    have "\<not> (?i < length ks \<and> compare (VInt a) (ks ! ?i) = 0)"
    proof
      assume h: "?i < length ks \<and> compare (VInt a) (ks ! ?i) = 0"
      with ik have "int_key (ks ! ?i)" by (simp add: int_keys_def)
      with h have "ks ! ?i = VInt a" by (simp add: compare_int)
      with h False show False by (metis nth_mem)
    qed
    with n show ?thesis by (simp add: Let_def)
  qed
qed

lemma searchNode_correct:
  assumes "well_shaped lo h n" and "ordered (inorder n)"
  shows "searchNode n (VInt a) =
     (case map_of (inorder n) (VInt a) of None \<Rightarrow> Some (-1, False) | Some v \<Rightarrow> Some (v, True))"
  using assms
proof (induction h arbitrary: n)
  case 0
  obtain ks vs cs leaf where n: "n = BTreeNode ks vs cs leaf" by (cases n)
  with "0.prems" have "leaf" "length vs = length ks" "ordered (zip ks vs)"
    by (auto split: if_splits)
  with n searchNode_leaf [where vs = vs and ks = ks and a = a and cs = cs] show ?case by simp
next
  case (Suc h)
  obtain ks vs cs leaf where n: "n = BTreeNode ks vs cs leaf" by (cases n)
  with Suc.prems have leaf: "\<not> leaf" and len: "length vs = length ks" "length cs = Suc (length ks)"
    and ch: "\<forall>c \<in> set cs. well_shaped lo h c"
    by (auto split: if_splits)
  from n leaf have n': "n = BTreeNode ks vs cs False" by simp
  from Suc.prems(2) n' len have ik: "int_keys ks"
    using node_int_keys [of vs ks False cs] by simp
  let ?i = "scan_up (VInt a) ks"
  have i: "?i \<le> length ks" by (rule scan_up_le)
  let ?L = "left_part ks vs cs ?i" and ?C = "inorder (cs ! ?i)" and ?R = "right_part ks vs cs ?i"
  have io: "inorder n = ?L @ ?C @ ?R"
    unfolding n' by (rule inorder_at [OF len i])
  with Suc.prems(2) have oL: "ordered ?L" and oC: "ordered ?C" and oR: "ordered ?R"
    and LC: "\<forall>x \<in> set ?L. \<forall>y \<in> set ?C. the_int (fst x) < the_int (fst y)"
    and LR: "\<forall>x \<in> set ?L. \<forall>y \<in> set ?R. the_int (fst x) < the_int (fst y)"
    and CR: "\<forall>x \<in> set ?C. \<forall>y \<in> set ?R. the_int (fst x) < the_int (fst y)"
    by (auto simp add: ordered_append)
  have Lk: "VInt a \<notin> fst ` set ?L"
  proof
    assume "VInt a \<in> fst ` set ?L"
    then obtain x where x: "x \<in> set ?L" "fst x = VInt a" by auto
    from left_part_bound [OF oL x(1)] scan_up_bounds(1) [OF ik, of a] x(2)
    show False by auto
  qed
  show ?case
  proof (cases "VInt a \<in> set ks")
    case True
    from scan_up_bounds(3) [OF ik True] have il: "?i < length ks" and e: "ks ! ?i = VInt a"
      by simp_all
    from il len have d: "drop ?i ks = VInt a # drop (Suc ?i) ks"
      "drop ?i vs = vs ! ?i # drop (Suc ?i) vs"
      "drop (Suc ?i) cs = cs ! Suc ?i # drop (Suc (Suc ?i)) cs"
      using Cons_nth_drop_Suc [of ?i ks] Cons_nth_drop_Suc [of ?i vs]
        Cons_nth_drop_Suc [of "Suc ?i" cs] e
      by simp_all
    have R: "?R = (VInt a, vs ! ?i)
        # inorder (cs ! Suc ?i) @ wr (zip (drop (Suc ?i) ks) (drop (Suc ?i) vs))
                                    (map inorder (drop (Suc (Suc ?i)) cs))"
      unfolding right_part_def d by simp
    then have inR: "(VInt a, vs ! ?i) \<in> set ?R" by simp
    have Ck: "VInt a \<notin> fst ` set ?C"
    proof
      assume "VInt a \<in> fst ` set ?C"
      then obtain x where x: "x \<in> set ?C" "fst x = VInt a" by auto
      with CR inR show False by fastforce
    qed
    have "map_of (inorder n) (VInt a) = map_of ?R (VInt a)"
      unfolding io using Lk Ck by (simp add: map_of_skip_left del: map_of_append)
    also have "\<dots> = Some (vs ! ?i)" by (subst R) simp
    finally show ?thesis using n' il e len by (simp add: Let_def three_way_def)
  next
    case False
    have nf: "\<not> (?i < length ks \<and> compare (VInt a) (ks ! ?i) = 0)"
    proof
      assume h: "?i < length ks \<and> compare (VInt a) (ks ! ?i) = 0"
      with ik have "int_key (ks ! ?i)" by (simp add: int_keys_def)
      with h have "ks ! ?i = VInt a" by (simp add: compare_int)
      with h False show False by (metis nth_mem)
    qed
    have Rk: "VInt a \<notin> fst ` set ?R"
    proof
      assume "VInt a \<in> fst ` set ?R"
      then obtain x where x: "x \<in> set ?R" "fst x = VInt a" by auto
      from right_part_bound [OF oR x(1)] obtain k where
        k: "k \<in> set (drop ?i ks)" "the_int k \<le> the_int (fst x)"
        by auto
      with scan_up_bounds(2) [OF ik, of a] x(2) have "the_int k = a" by auto
      moreover from k(1) ik have "int_key k" by (auto simp add: int_keys_def dest: in_set_dropD)
      ultimately have "k = VInt a" by (rule int_key_eq [rotated])
      with k(1) False show False by (auto dest: in_set_dropD)
    qed
    have m: "map_of (inorder n) (VInt a) = map_of ?C (VInt a)"
      unfolding io using Lk Rk
      by (simp add: map_of_skip_left map_of_skip_right del: map_of_append)
    from i len have "cs ! ?i \<in> set cs" by simp
    with ch have "well_shaped lo h (cs ! ?i)" by simp
    from Suc.IH [OF this oC] m nf n' i len show ?thesis
      by (auto simp add: Let_def)
  qed
qed

lemma wl_Nil [simp]: "wl cs [] = []"
  by (cases cs) simp_all

lemma wl_take: "wl cs es = wl (take (length es) cs) es"
  by (induction cs es rule: wl.induct) simp_all

lemma weave_last:
  assumes "length cs = Suc (length es)"
  shows "weave cs es = wl cs es @ cs ! length es"
proof -
  from weave_at [OF assms, of "length es"]
  have "weave cs es = wl (take (length es) cs) es @ cs ! length es" by simp
  then show ?thesis by (simp add: wl_take [symmetric])
qed

lemma traverse_loop_correct:
  assumes "length (vals n) = length (keys n)"
    and "isLeaf n \<or> length (children n) = Suc (length (keys n))"
    and "\<forall>c \<in> set (children n). \<forall>acc. traverse c acc = Some (acc @ map entry (inorder c))"
    and "i \<le> length (keys n)"
  shows "traverse_loop n i acc = Some (acc @ map entry (loop_rest n i))"
  using assms(4)
proof (induction "length (keys n) - i" arbitrary: i acc)
  case 0
  then have "i = length (keys n)" by simp
  with assms(1) show ?case
    by (subst traverse_loop.simps) (simp add: loop_rest_def)
next
  case (Suc d)
  then have i: "i < length (keys n)" and d: "d = length (keys n) - Suc i" by simp_all
  from i assms(1) have z: "drop i (zip (keys n) (vals n))
      = (keys n ! i, vals n ! i) # drop (Suc i) (zip (keys n) (vals n))"
    using Cons_nth_drop_Suc [of i "zip (keys n) (vals n)"] by simp
  have next_step: "traverse_loop n (Suc i) acc' = Some (acc' @ map entry (loop_rest n (Suc i)))"
    for acc'
    using Suc.hyps(1) [OF d] i by simp
  show ?case
  proof (cases "isLeaf n")
    case True
    with i assms(1) z show ?thesis
      by (subst traverse_loop.simps) (simp add: next_step loop_rest_def entry_def)
  next
    case False
    with assms(2) i have ic: "i < length (children n)" by simp
    then have c: "drop i (children n) = children n ! i # drop (Suc i) (children n)"
      by (simp add: Cons_nth_drop_Suc)
    from ic assms(3) have t: "traverse (children n ! i) acc
        = Some (acc @ map entry (inorder (children n ! i)))"
      by simp
    from False i ic assms(1) show ?thesis
      by (subst traverse_loop.simps) (simp add: t next_step loop_rest_def z c entry_def)
  qed
qed

lemma traverse_correct:
  assumes "well_shaped lo h n"
  shows "traverse n acc = Some (acc @ map entry (inorder n))"
  using assms
proof (induction h arbitrary: n acc)
  case 0
  obtain ks vs cs leaf where n: "n = BTreeNode ks vs cs leaf" by (cases n)
  with "0.prems" have l: "leaf" "length vs = length ks" "cs = []"
    by (auto split: if_splits)
  with n have "traverse_loop n 0 acc = Some (acc @ map entry (loop_rest n 0))"
    by (intro traverse_loop_correct) simp_all
  with n l show ?case
    by (subst traverse.simps) (simp add: loop_rest_def)
next
  case (Suc h)
  obtain ks vs cs leaf where n: "n = BTreeNode ks vs cs leaf" by (cases n)
  with Suc.prems have leaf: "\<not> leaf" and len: "length vs = length ks" "length cs = Suc (length ks)"
    and ch: "\<forall>c \<in> set cs. well_shaped lo h c"
    by (auto split: if_splits)
  from ch Suc.IH have sub: "\<forall>c \<in> set cs. \<forall>acc. traverse c acc = Some (acc @ map entry (inorder c))"
    by blast
  with n len have lp: "traverse_loop n 0 acc = Some (acc @ map entry (loop_rest n 0))"
    by (intro traverse_loop_correct) simp_all
  from len have "cs ! length ks \<in> set cs" by simp
  with sub have t: "traverse (cs ! length ks) acc'
      = Some (acc' @ map entry (inorder (cs ! length ks)))" for acc'
    by blast
  from len have w: "weave (map inorder cs) (zip ks vs)
      = wl (map inorder cs) (zip ks vs) @ inorder (cs ! length ks)"
    using weave_last [of "map inorder cs" "zip ks vs"] by simp
  from n leaf len lp t w show ?case
    by (subst traverse.simps) (simp add: loop_rest_def)
qed

lemma inserted_ordered:
  assumes "ordered old" and "inserted a r old new"
  shows "ordered new" and "set new = insert (VInt a, r) (set old)"
proof -
  from assms(2) obtain xs ys where old: "old = xs @ ys" and new: "new = xs @ (VInt a, r) # ys"
    and lo: "\<forall>x \<in> set xs. the_int (fst x) < a" and hi: "\<forall>y \<in> set ys. a < the_int (fst y)"
    by (auto simp add: inserted_def)
  from assms(1) old have "ordered xs" and oy: "ordered ys" by (simp_all add: ordered_append)
  moreover have "ordered ((VInt a, r) # ys)"
    using oy hi by (simp add: ordered_def)
  moreover have "\<forall>x \<in> set xs. \<forall>y \<in> set ((VInt a, r) # ys). the_int (fst x) < the_int (fst y)"
    using lo hi by force
  ultimately show "ordered new" unfolding new by (simp only: ordered_append)
  show "set new = insert (VInt a, r) (set old)" unfolding old new by auto
qed

lemma split_list_at: "n < length xs \<Longrightarrow> xs = take n xs @ xs ! n # drop (Suc n) xs"
  by (simp add: id_take_nth_drop [symmetric])

lemma splitChild_result:
  assumes "well_shaped lo (Suc h) (BTreeNode ks vs cs False)"
    and "i < length cs"
    and "length (keys (cs ! i)) = 2 * btreeOrder - 1"
  shows "\<exists>l r m mv.
      splitChild (BTreeNode ks vs cs False) i
        = Some (BTreeNode (take i ks @ m # drop i ks) (take i vs @ mv # drop i vs)
                  (take i cs @ l # r # drop (Suc i) cs) False)
      \<and> inorder (cs ! i) = inorder l @ (m, mv) # inorder r"
proof -
  obtain kc vc cc lc where fc: "cs ! i = BTreeNode kc vc cc lc" by (cases "cs ! i")
  from assms(1) have len: "length vs = length ks" "length cs = Suc (length ks)"
    and ch: "\<forall>c \<in> set cs. well_shaped lo h c"
    by auto
  from assms(2) have "cs ! i \<in> set cs" by simp
  with ch fc have wc: "well_shaped lo h (BTreeNode kc vc cc lc)" by metis
  from assms(3) fc have kc: "length kc = 7" by (simp add: btreeOrder_def)
  from wc kc have vc: "length vc = 7" by simp
  let ?l = "BTreeNode (take 3 kc) (take 3 vc) (if lc then cc else take 4 cc) lc"
  let ?r = "BTreeNode (drop 4 kc) (drop 4 vc) (if lc then [] else drop 4 cc) lc"
  have sp: "splitChild (BTreeNode ks vs cs False) i
      = Some (BTreeNode (take i ks @ kc ! 3 # drop i ks) (take i vs @ vc ! 3 # drop i vs)
                (take i cs @ ?l # ?r # drop (Suc i) cs) False)"
    using assms(2) len kc vc wc fc
    by (auto simp add: splitChild_def btreeOrder_def Let_def split: nat.splits)
  have z: "zip kc vc = zip (take 3 kc) (take 3 vc) @ (kc ! 3, vc ! 3) # zip (drop 4 kc) (drop 4 vc)"
  proof -
    have "zip kc vc = take 3 (zip kc vc) @ zip kc vc ! 3 # drop (Suc 3) (zip kc vc)"
      using kc vc by (intro split_list_at) simp
    then show ?thesis using kc vc by (simp add: take_zip drop_zip)
  qed
  have "inorder (BTreeNode kc vc cc lc) = inorder ?l @ (kc ! 3, vc ! 3) # inorder ?r"
  proof (cases lc)
    case True
    with z show ?thesis by simp
  next
    case False
    with wc kc have cc: "length cc = 8" by (auto split: nat.splits)
    have "weave (map inorder cc) (zip kc vc)
        = weave (map inorder (take 4 cc) @ map inorder (drop 4 cc))
            (zip (take 3 kc) (take 3 vc) @ (kc ! 3, vc ! 3) # zip (drop 4 kc) (drop 4 vc))"
      using z by (simp flip: map_append)
    also have "\<dots> = weave (map inorder (take 4 cc)) (zip (take 3 kc) (take 3 vc))
        @ (kc ! 3, vc ! 3) # weave (map inorder (drop 4 cc)) (zip (drop 4 kc) (drop 4 vc))"
      using cc kc vc by (intro weave_mid) simp
    finally show ?thesis using False by simp
  qed
  with sp fc show ?thesis by metis
qed

lemma splitChild_inorder:
  assumes "length vs = length ks" and "length cs = Suc (length ks)" and "i < length cs"
    and "inorder (cs ! i) = inorder l @ (m, mv) # inorder r"
  shows "inorder (BTreeNode (take i ks @ m # drop i ks) (take i vs @ mv # drop i vs)
                    (take i cs @ l # r # drop (Suc i) cs) False)
           = inorder (BTreeNode ks vs cs False)"
proof -
  from assms(2,3) have i: "i \<le> length ks" by simp
  let ?L = "wl (map inorder (take i cs)) (zip (take i ks) (take i vs))"
  let ?zr = "zip (drop i ks) (drop i vs)"
  let ?cr = "map inorder (drop (Suc i) cs)"
  have "inorder (BTreeNode (take i ks @ m # drop i ks) (take i vs @ mv # drop i vs)
                    (take i cs @ l # r # drop (Suc i) cs) False)
      = weave (map inorder (take i cs) @ inorder l # inorder r # ?cr)
          (zip (take i ks) (take i vs) @ (m, mv) # ?zr)"
    using assms(1) i by simp
  also have "\<dots> = ?L @ weave (inorder l # inorder r # ?cr) ((m, mv) # ?zr)"
    using assms(1,2) i by (intro weave_wl) simp
  also have "weave (inorder l # inorder r # ?cr) ((m, mv) # ?zr)
      = inorder l @ (m, mv) # weave (inorder r # ?cr) ?zr"
    by simp
  also have "weave (inorder r # ?cr) ?zr = inorder r @ wr ?zr ?cr"
    using assms(1,2) i by (intro weave_wr) simp
  finally have "inorder (BTreeNode (take i ks @ m # drop i ks) (take i vs @ mv # drop i vs)
                    (take i cs @ l # r # drop (Suc i) cs) False)
      = left_part ks vs cs i @ inorder (cs ! i) @ right_part ks vs cs i"
    by (simp add: assms(4) left_part_def right_part_def)
  with inorder_at [OF assms(1,2) i] show ?thesis by simp
qed

lemma node_keys_in_inorder:
  assumes "length vs = length ks" and "leaf \<or> length cs = Suc (length ks)"
  shows "set ks \<subseteq> fst ` set (inorder (BTreeNode ks vs cs leaf))"
proof -
  have "set ks = fst ` set (zip ks vs)"
    using assms(1) by (metis map_fst_zip set_map)
  also have "set (zip ks vs) \<subseteq> set (inorder (BTreeNode ks vs cs leaf))"
  proof (cases leaf)
    case True
    then show ?thesis by simp
  next
    case False
    with assms have "length (map inorder cs) = Suc (length (zip ks vs))" by simp
    from set_weave [OF this] False show ?thesis by simp
  qed
  finally show ?thesis by (simp add: image_mono)
qed

lemma strictly_below:
  assumes "int_keys ks" and "VInt a \<notin> set ks" and "k \<in> set ks" and "the_int k \<le> a"
  shows "the_int k < a"
proof (rule ccontr)
  assume "\<not> the_int k < a"
  with assms(4) have "the_int k = a" by simp
  moreover from assms(1,3) have "int_key k" by (simp add: int_keys_def)
  ultimately have "k = VInt a" by (rule int_key_eq [rotated])
  with assms(2,3) show False by simp
qed

lemma descend:
  assumes "length vs = length ks" and "length cs = Suc (length ks)" and "j \<le> length ks"
    and "ordered (inorder (BTreeNode ks vs cs False))"
    and "\<forall>k \<in> set (take j ks). the_int k < a"
    and "\<forall>k \<in> set (drop j ks). a < the_int k"
    and "inserted a r (inorder (cs ! j)) (inorder c')"
  shows "inserted a r (inorder (BTreeNode ks vs cs False))
           (inorder (BTreeNode ks vs (cs[j := c']) False))"
proof -
  let ?L = "left_part ks vs cs j" and ?R = "right_part ks vs cs j"
  have io: "inorder (BTreeNode ks vs cs False) = ?L @ inorder (cs ! j) @ ?R"
    by (rule inorder_at [OF assms(1,2,3)])
  have "inorder (BTreeNode ks vs (cs[j := c']) False)
      = left_part ks vs (cs[j := c']) j @ inorder ((cs[j := c']) ! j)
          @ right_part ks vs (cs[j := c']) j"
    using assms(1,2,3) by (intro inorder_at) simp_all
  then have io': "inorder (BTreeNode ks vs (cs[j := c']) False) = ?L @ inorder c' @ ?R"
    using assms(2,3) by (simp add: left_part_def right_part_def)
  from assms(4) io have oL: "ordered ?L" and oR: "ordered ?R"
    by (simp_all add: ordered_append)
  have bL: "\<forall>x \<in> set ?L. the_int (fst x) < a"
    using left_part_bound [OF oL] assms(5) by fastforce
  have bR: "\<forall>x \<in> set ?R. a < the_int (fst x)"
    using right_part_bound [OF oR] assms(6) by fastforce
  from assms(7) obtain xs ys where c: "inorder (cs ! j) = xs @ ys"
    and c': "inorder c' = xs @ (VInt a, r) # ys"
    and lo: "\<forall>x \<in> set xs. the_int (fst x) < a" and hi: "\<forall>y \<in> set ys. a < the_int (fst y)"
    by (auto simp add: inserted_def)
  show ?thesis
    unfolding inserted_def
  proof (intro exI conjI)
    show "inorder (BTreeNode ks vs cs False) = (?L @ xs) @ (ys @ ?R)"
      unfolding io c by simp
    show "inorder (BTreeNode ks vs (cs[j := c']) False) = (?L @ xs) @ (VInt a, r) # (ys @ ?R)"
      unfolding io' c' by simp
    show "\<forall>x \<in> set (?L @ xs). the_int (fst x) < a" using bL lo by auto
    show "\<forall>y \<in> set (ys @ ?R). a < the_int (fst y)" using bR hi by auto
  qed
qed

lemma child_ordered:
  assumes "length vs = length ks" and "length cs = Suc (length ks)" and "j \<le> length ks"
    and "ordered (inorder (BTreeNode ks vs cs False))"
  shows "ordered (inorder (cs ! j))"
    and "fst ` set (inorder (cs ! j)) \<subseteq> fst ` set (inorder (BTreeNode ks vs cs False))"
  using assms(4) unfolding inorder_at [OF assms(1,2,3)]
  by (auto simp add: ordered_append)

lemma insertNonFull_leaf:
  assumes "length vs = length ks" and "ordered (zip ks vs)" and "VInt a \<notin> set ks"
  shows "inserted a r (zip ks vs)
     (zip (take (scan_down (VInt a) ks) ks @ VInt a # drop (scan_down (VInt a) ks) ks)
          (take (scan_down (VInt a) ks) vs @ r # drop (scan_down (VInt a) ks) vs))"
proof -
  let ?j = "scan_down (VInt a) ks"
  from assms(1,2) have ik: "int_keys ks"
    using node_int_keys [of vs ks True "[]"] by simp
  have lo: "\<forall>k \<in> set (take ?j ks). the_int k < a"
    using scan_down_bounds(1) [OF ik, of a] strictly_below [OF ik assms(3)]
    by (auto dest: in_set_takeD)
  have hi: "\<forall>k \<in> set (drop ?j ks). a < the_int k"
    by (rule scan_down_bounds(2) [OF ik])
  show ?thesis
    unfolding inserted_def
  proof (intro exI conjI)
    show "zip ks vs = zip (take ?j ks) (take ?j vs) @ zip (drop ?j ks) (drop ?j vs)"
      by (metis append_take_drop_id take_zip drop_zip)
    show "zip (take ?j ks @ VInt a # drop ?j ks) (take ?j vs @ r # drop ?j vs)
        = zip (take ?j ks) (take ?j vs) @ (VInt a, r) # zip (drop ?j ks) (drop ?j vs)"
      using assms(1) by simp
    show "\<forall>x \<in> set (zip (take ?j ks) (take ?j vs)). the_int (fst x) < a"
      using lo by (auto dest: zip_fst_mem)
    show "\<forall>y \<in> set (zip (drop ?j ks) (drop ?j vs)). a < the_int (fst y)"
      using hi by (auto dest: zip_fst_mem)
  qed
qed

lemma insertNonFull_split_step:
  assumes "scan_down key ks < length cs"
    and "2 * btreeOrder - 1 \<le> length (keys (cs ! scan_down key ks))"
    and "splitChild (BTreeNode ks vs cs False) (scan_down key ks) = Some (BTreeNode ks' vs' cs' lf)"
    and "j = (if compare key (ks' ! scan_down key ks) > 0 then Suc (scan_down key ks)
              else scan_down key ks)"
    and "j < length cs'"
    and "insertNonFull (cs' ! j) key r = Some c'"
  shows "insertNonFull (BTreeNode ks vs cs False) key r = Some (BTreeNode ks' vs' (cs'[j := c']) lf)"
  using assms by (auto simp add: Let_def)

lemma insertNonFull_correct:
  assumes "well_shaped lo h n" and "lo \<le> btreeOrder - 1"
    and "length (keys n) < 2 * btreeOrder - 1"
    and "ordered (inorder n)" and "VInt a \<notin> fst ` set (inorder n)"
  shows "\<exists>n'. insertNonFull n (VInt a) r = Some n' \<and> inserted a r (inorder n) (inorder n')"
  using assms
proof (induction h arbitrary: n)
  case 0
  obtain ks vs cs leaf where n: "n = BTreeNode ks vs cs leaf" by (cases n)
  with "0.prems" have l: "leaf" "length vs = length ks" and o: "ordered (zip ks vs)"
    by (auto split: if_splits)
  from "0.prems"(5) n l node_keys_in_inorder [of vs ks True cs] have "VInt a \<notin> set ks"
    by auto
  from insertNonFull_leaf [OF l(2) o this, of r] n l show ?case
    by (simp add: Let_def)
next
  case (Suc h)
  obtain ks vs cs leaf where n0: "n = BTreeNode ks vs cs leaf" by (cases n)
  with Suc.prems have leaf: "\<not> leaf" and len: "length vs = length ks" "length cs = Suc (length ks)"
    and ch: "\<forall>c \<in> set cs. lo \<le> length (keys c) \<and> well_shaped lo h c"
    and nf: "length ks < 2 * btreeOrder - 1"
    by (auto split: if_splits)
  from n0 leaf have n: "n = BTreeNode ks vs cs False" by simp
  from Suc.prems(4) n len have ik: "int_keys ks"
    using node_int_keys [of vs ks False cs] by simp
  from Suc.prems(5) n len node_keys_in_inorder [of vs ks False cs] have na: "VInt a \<notin> set ks"
    by auto
  let ?i = "scan_down (VInt a) ks"
  have i: "?i \<le> length ks" by (rule scan_down_le)
  with len have ic: "?i < length cs" by simp
  have lo: "\<forall>k \<in> set (take ?i ks). the_int k < a"
    using scan_down_bounds(1) [OF ik, of a] strictly_below [OF ik na]
    by (auto dest: in_set_takeD)
  have hi: "\<forall>k \<in> set (drop ?i ks). a < the_int k"
    by (rule scan_down_bounds(2) [OF ik])
  from ic ch have wc: "well_shaped lo h (cs ! ?i)" by simp
  show ?case
  proof (cases "2 * btreeOrder - 1 \<le> length (keys (cs ! ?i))")
    case False
    then have cnf: "length (keys (cs ! ?i)) < 2 * btreeOrder - 1" by simp
    from child_ordered [OF len i] Suc.prems(4,5) n
    have "ordered (inorder (cs ! ?i))" "VInt a \<notin> fst ` set (inorder (cs ! ?i))"
      by auto
    from Suc.IH [OF wc Suc.prems(2) cnf this] obtain c' where
      ins: "insertNonFull (cs ! ?i) (VInt a) r = Some c'"
      and rel: "inserted a r (inorder (cs ! ?i)) (inorder c')"
      by blast
    have "inserted a r (inorder n) (inorder (BTreeNode ks vs (cs[?i := c']) False))"
      unfolding n using Suc.prems(4) [unfolded n] by (intro descend len i lo hi rel)
    moreover have "insertNonFull n (VInt a) r = Some (BTreeNode ks vs (cs[?i := c']) False)"
      using n ic False ins by (simp add: Let_def)
    ultimately show ?thesis by blast
  next
    case True
    from wc have "length (keys (cs ! ?i)) \<le> 2 * btreeOrder - 1" by (cases "cs ! ?i") simp
    with True have full: "length (keys (cs ! ?i)) = 2 * btreeOrder - 1" by simp
    from Suc.prems(1) n have wn: "well_shaped lo (Suc h) (BTreeNode ks vs cs False)" by simp
    from splitChild_result [OF wn ic full] obtain l rr m mv where
      sp: "splitChild (BTreeNode ks vs cs False) ?i
        = Some (BTreeNode (take ?i ks @ m # drop ?i ks) (take ?i vs @ mv # drop ?i vs)
                  (take ?i cs @ l # rr # drop (Suc ?i) cs) False)"
      and ci: "inorder (cs ! ?i) = inorder l @ (m, mv) # inorder rr"
      by blast
    let ?ks = "take ?i ks @ m # drop ?i ks" and ?vs = "take ?i vs @ mv # drop ?i vs"
    let ?cs = "take ?i cs @ l # rr # drop (Suc ?i) cs"
    let ?p = "BTreeNode ?ks ?vs ?cs False"
    have ip: "inorder ?p = inorder n"
      unfolding n by (rule splitChild_inorder [OF len ic ci])
    from splitChild_shape [OF wn ic full Suc.prems(2) nf] sp
    have wp: "well_shaped lo (Suc h) ?p"
      and k1: "length (keys (?cs ! ?i)) = btreeOrder - 1"
      and k2: "length (keys (?cs ! Suc ?i)) = btreeOrder - 1"
      by auto
    have len': "length ?vs = length ?ks" "length ?cs = Suc (length ?ks)"
      using len i by simp_all
    from wp have ch': "\<forall>c \<in> set ?cs. well_shaped lo h c" by simp
    have op: "ordered (inorder ?p)" and ap: "VInt a \<notin> fst ` set (inorder ?p)"
      using ip Suc.prems(4,5) by simp_all
    from op len' have ik': "int_keys ?ks"
      using node_int_keys [of ?vs ?ks False ?cs] by blast
    have m_in: "m \<in> set ?ks" by simp
    from ap len' node_keys_in_inorder [of ?vs ?ks False ?cs] have na': "VInt a \<notin> set ?ks"
      by blast
    from ik' m_in have im: "int_key m" by (simp add: int_keys_def)
    from na' have "m \<noteq> VInt a" by auto
    with im have ma: "the_int m \<noteq> a" using int_key_eq by blast
    have mi: "?ks ! ?i = m" using i by (simp add: nth_append)
    let ?j = "if compare (VInt a) (?ks ! ?i) > 0 then Suc ?i else ?i"
    have j: "?j \<le> length ?ks" using i by simp
    have lo': "\<forall>k \<in> set (take ?j ?ks). the_int k < a"
      using lo i im ma by (auto simp add: mi compare_int)
    have hi': "\<forall>k \<in> set (drop ?j ?ks). a < the_int k"
      using hi i im ma by (auto simp add: mi compare_int)
    from j len' have jc: "?j < length ?cs" by simp
    with ch' have wj: "well_shaped lo h (?cs ! ?j)" by (metis nth_mem)
    from k1 k2 have "length (keys (?cs ! ?j)) = btreeOrder - 1"
      by (cases "compare (VInt a) (?ks ! ?i) > 0") (simp_all only: if_True if_False)
    then have jnf: "length (keys (?cs ! ?j)) < 2 * btreeOrder - 1" by (simp add: btreeOrder_def)
    have oc: "ordered (inorder (?cs ! ?j))"
      by (rule child_ordered(1) [OF len' j op])
    have ac: "VInt a \<notin> fst ` set (inorder (?cs ! ?j))"
      using child_ordered(2) [OF len' j op] ap by blast
    from Suc.IH [OF wj Suc.prems(2) jnf oc ac] obtain c' where
      ins: "insertNonFull (?cs ! ?j) (VInt a) r = Some c'"
      and rel: "inserted a r (inorder (?cs ! ?j)) (inorder c')"
      by blast
    have "inserted a r (inorder ?p) (inorder (BTreeNode ?ks ?vs (?cs[?j := c']) False))"
      by (rule descend [OF len' j op lo' hi' rel])
    then have "inserted a r (inorder n) (inorder (BTreeNode ?ks ?vs (?cs[?j := c']) False))"
      by (simp only: ip)
    moreover have "insertNonFull n (VInt a) r = Some (BTreeNode ?ks ?vs (?cs[?j := c']) False)"
      unfolding n by (rule insertNonFull_split_step [OF ic True sp refl jc ins])
    ultimately show ?thesis by blast
  qed
qed

lemma Insert_duplicate:
  assumes "well_shaped lo h (root bt)" and "ordered (inorder (root bt))"
    and "VInt a \<in> fst ` set (inorder (root bt))"
  shows "Insert bt (VInt a) r = Some (bt, Some DuplicateKey)"
proof -
  from assms(3) obtain v where "map_of (inorder (root bt)) (VInt a) = Some v"
    by (metis map_of_eq_None_iff not_None_eq)
  with searchNode_correct [OF assms(1,2), of a] show ?thesis
    by (simp add: Insert_def)
qed

lemma Insert_correct:
  assumes "well_shaped lo h (root bt)" and "lo \<le> btreeOrder - 1"
    and "ordered (inorder (root bt))" and "VInt a \<notin> fst ` set (inorder (root bt))"
  shows "\<exists>bt' h'. Insert bt (VInt a) r = Some (bt', None) \<and> well_shaped lo h' (root bt')
           \<and> inserted a r (inorder (root bt)) (inorder (root bt'))"
proof -
  from assms(4) have "map_of (inorder (root bt)) (VInt a) = None"
    by (simp add: map_of_eq_None_iff)
  with searchNode_correct [OF assms(1,3), of a]
  have s: "searchNode (root bt) (VInt a) = Some (-1, False)" by simp
  let ?split = "if length (keys (root bt)) \<ge> 2 * btreeOrder - 1
                then splitChild (BTreeNode [] [] [root bt] False) 0
                else Some (root bt)"
  have "\<exists>r0 h0. ?split = Some r0 \<and> well_shaped lo h0 r0 \<and> length (keys r0) < 2 * btreeOrder - 1
          \<and> inorder r0 = inorder (root bt)"
  proof (cases "length (keys (root bt)) \<ge> 2 * btreeOrder - 1")
    case False
    with assms(1) show ?thesis by auto
  next
    case True
    from assms(1) have "length (keys (root bt)) \<le> 2 * btreeOrder - 1"
      by (rule well_shaped_root_keys)
    with True have full: "length (keys ([root bt] ! 0)) = 2 * btreeOrder - 1" by simp
    have w: "well_shaped lo (Suc h) (BTreeNode [] [] [root bt] False)"
      using assms(1,2) full by (simp add: btreeOrder_def)
    from splitChild_result [OF w _ full] obtain l rr m mv where
      sp: "splitChild (BTreeNode [] [] [root bt] False) 0
             = Some (BTreeNode [m] [mv] [l, rr] False)"
      and ci: "inorder ([root bt] ! 0) = inorder l @ (m, mv) # inorder rr"
      by auto
    from splitChild_inorder [of "[]" "[]" "[root bt]" 0, OF _ _ _ ci]
    have io: "inorder (BTreeNode [m] [mv] [l, rr] False) = inorder (root bt)" by simp
    from splitChild_shape [OF w _ full assms(2)] sp
    have ws: "well_shaped lo (Suc h) (BTreeNode [m] [mv] [l, rr] False)"
      by (auto simp add: btreeOrder_def)
    have "?split = Some (BTreeNode [m] [mv] [l, rr] False)"
      using True sp by simp
    moreover have "length (keys (BTreeNode [m] [mv] [l, rr] False)) < 2 * btreeOrder - 1"
      by (simp add: btreeOrder_def)
    ultimately show ?thesis using ws io by blast
  qed
  then obtain r0 h0 where r0: "?split = Some r0" and w0: "well_shaped lo h0 r0"
    and n0: "length (keys r0) < 2 * btreeOrder - 1" and i0: "inorder r0 = inorder (root bt)"
    by blast
  from insertNonFull_correct [OF w0 assms(2) n0, of a r] assms(3,4) i0 obtain r1 where
    ins: "insertNonFull r0 (VInt a) r = Some r1"
    and rel: "inserted a r (inorder (root bt)) (inorder r1)"
    by auto
  from insertNonFull_shape [OF w0 assms(2) n0, of "VInt a" r] ins
  have w1: "well_shaped lo h0 r1" by auto
  have "Insert bt (VInt a) r = Some (bt\<lparr>root := r1\<rparr>, None)"
    unfolding Insert_def s using r0 ins by (simp del: One_nat_def)
  with w1 rel show ?thesis by auto
qed

lemma insert_all_correct:
  assumes "well_shaped lo h (root bt)" and "lo \<le> btreeOrder - 1"
    and "ordered (inorder (root bt))"
    and "distinct (map fst kvs)"
    and "\<forall>k \<in> fst ` set kvs. VInt k \<notin> fst ` set (inorder (root bt))"
  shows "\<exists>bt' h'. insert_all bt kvs = Some bt' \<and> well_shaped lo h' (root bt')
     \<and> ordered (inorder (root bt'))
     \<and> set (inorder (root bt'))
         = set (inorder (root bt)) \<union> (\<lambda>kv. (VInt (fst kv), snd kv)) ` set kvs"
  using assms
proof (induction kvs arbitrary: bt h)
  case Nil
  then show ?case by auto
next
  case (Cons kv kvs)
  obtain k pos where kv: "kv = (k, pos)" by (cases kv)
  from Cons.prems(5) kv have "VInt k \<notin> fst ` set (inorder (root bt))" by simp
  from Insert_correct [OF Cons.prems(1,2,3) this, of pos] obtain bt1 h1 where
    i1: "Insert bt (VInt k) pos = Some (bt1, None)" and w1: "well_shaped lo h1 (root bt1)"
    and rel: "inserted k pos (inorder (root bt)) (inorder (root bt1))"
    by blast
  from inserted_ordered [OF Cons.prems(3) rel]
  have o1: "ordered (inorder (root bt1))"
    and s1: "set (inorder (root bt1)) = insert (VInt k, pos) (set (inorder (root bt)))"
    by simp_all
  from Cons.prems(4) kv have d: "distinct (map fst kvs)" and nk: "k \<notin> fst ` set kvs"
    by auto
  have fresh: "\<forall>k' \<in> fst ` set kvs. VInt k' \<notin> fst ` set (inorder (root bt1))"
    using Cons.prems(5) nk s1 by auto
  from Cons.IH [OF w1 Cons.prems(2) o1 d fresh] obtain bt' h' where
    "insert_all bt1 kvs = Some bt'" "well_shaped lo h' (root bt')"
    "ordered (inorder (root bt'))"
    "set (inorder (root bt'))
       = set (inorder (root bt1)) \<union> (\<lambda>kv. (VInt (fst kv), snd kv)) ` set kvs"
    by blast
  with i1 s1 kv show ?case by auto
qed

text \<open>
  C4. Inserting pairwise distinct integer keys, in any order and with any row positions,
  into a fresh tree succeeds at every step; \<open>GetAll\<close> then returns as many entries as
  keys were inserted, in strictly ascending key order, and they are the inserted keys
  with their positions; \<open>Search\<close> finds each inserted key with its position, and
  reports not found for every integer key that was not inserted.
\<close>

theorem btree_insert_then_query:
  assumes "distinct (map fst kvs)"
  shows "\<exists>bt es. insert_all NewBTree kvs = Some bt \<and> GetAll bt = Some es
     \<and> length es = length kvs
     \<and> sorted_wrt (<) (map (the_int \<circ> Key) es)
     \<and> set es = (\<lambda>kv. \<lparr>Key = VInt (fst kv), RowIndex = snd kv\<rparr>) ` set kvs
     \<and> (\<forall>kv \<in> set kvs. Search bt (VInt (fst kv)) = Some (snd kv, True))
     \<and> (\<forall>k. k \<notin> fst ` set kvs \<longrightarrow> Search bt (VInt k) = Some (-1, False))"
proof -
  let ?f = "\<lambda>kv :: int \<times> int. (VInt (fst kv), snd kv)"
  have w0: "well_shaped (btreeOrder - 1) 0 (root NewBTree)" and o0: "ordered (inorder (root NewBTree))"
    and e0: "inorder (root NewBTree) = []"
    by (simp_all add: NewBTree_def ordered_def)
  from insert_all_correct [OF w0 _ o0 assms] e0 obtain bt h where
    ia: "insert_all NewBTree kvs = Some bt" and w: "well_shaped (btreeOrder - 1) h (root bt)"
    and o: "ordered (inorder (root bt))" and st: "set (inorder (root bt)) = ?f ` set kvs"
    by auto
  let ?es = "inorder (root bt)"
  have ga: "GetAll bt = Some (map entry ?es)"
    using traverse_correct [OF w, of "[]"] by (simp add: GetAll_def)
  have dk: "distinct (map fst ?es)" by (rule ordered_keys_distinct [OF o])
  then have de: "distinct ?es" by (simp add: distinct_map)
  have inj: "inj_on ?f (set kvs)" by (auto simp add: inj_on_def prod_eq_iff)
  from assms have dkv: "distinct kvs" by (simp add: distinct_map)
  have "length ?es = card (set ?es)" using de by (simp add: distinct_card)
  also have "\<dots> = card (set kvs)" unfolding st using inj by (rule card_image)
  also have "\<dots> = length kvs" using dkv by (simp add: distinct_card)
  finally have len: "length (map entry ?es) = length kvs" by simp
  have so: "sorted_wrt (<) (map (the_int \<circ> Key) (map entry ?es))"
    using o by (simp add: ordered_def entry_def comp_def)
  have se: "set (map entry ?es) = (\<lambda>kv. \<lparr>Key = VInt (fst kv), RowIndex = snd kv\<rparr>) ` set kvs"
    unfolding set_map st by (simp add: image_image entry_def)
  have found: "Search bt (VInt (fst kv)) = Some (snd kv, True)" if "kv \<in> set kvs" for kv
  proof -
    from that st have "(VInt (fst kv), snd kv) \<in> set ?es" by auto
    with dk have "map_of ?es (VInt (fst kv)) = Some (snd kv)" by (rule map_of_is_SomeI)
    with searchNode_correct [OF w o, of "fst kv"] show ?thesis by (simp add: Search_def)
  qed
  have missing: "Search bt (VInt k) = Some (-1, False)" if "k \<notin> fst ` set kvs" for k
  proof -
    from that st have "VInt k \<notin> fst ` set ?es" by force
    then have "map_of ?es (VInt k) = None" by (simp add: map_of_eq_None_iff)
    with searchNode_correct [OF w o, of k] show ?thesis by (simp add: Search_def)
  qed
  from ia ga len so se found missing show ?thesis by blast
qed

theorem btree_insert_then_query_witness:
  "\<exists>bt es. insert_all NewBTree [(5, 0), (3, 1), (8, 2)] = Some bt \<and> GetAll bt = Some es
     \<and> length es = 3
     \<and> sorted_wrt (<) (map (the_int \<circ> Key) es)
     \<and> set es = {\<lparr>Key = VInt 5, RowIndex = 0\<rparr>, \<lparr>Key = VInt 3, RowIndex = 1\<rparr>,
                  \<lparr>Key = VInt 8, RowIndex = 2\<rparr>}
     \<and> Search bt (VInt 3) = Some (1, True)
     \<and> Search bt (VInt 4) = Some (-1, False)"
  using btree_insert_then_query [of "[(5, 0), (3, 1), (8, 2)]"]
  by (auto simp del: insert_all.simps)

end
